theory Spec2Isabelle
  imports Complex_Main
begin

section \<open>The board of 2048.py\<close>

text \<open>
  The exceptions the engine can raise: the division in the constructor, the
  \<^verbatim>\<open>assert\<close> statements, \<^verbatim>\<open>random.choice\<close> on an empty list, and the
  iteration over a missing previous grid in \<^verbatim>\<open>undo\<close>.
\<close>

datatype error = ZeroDivisionError | AssertionError | IndexError | TypeError

text \<open>
  A cell holds \<^verbatim>\<open>None\<close> or a Python integer. The fields are those of class
  \<^verbatim>\<open>Board\<close>; \<^verbatim>\<open>_size\<close> is called \<open>board_size\<close>. The colour scheme is read by
  \<^verbatim>\<open>draw\<close> only and is left out; \<^verbatim>\<open>_tile_size\<close> is kept as the exact quotient.
\<close>

record board =
  board_size :: int
  grid :: "int option list list"
  prev_grid :: "int option list list option"
  undo_available :: bool
  score :: int
  tile_size :: rat

text \<open>\<^verbatim>\<open>Board.__init__\<close>: the division is the only statement that can raise.\<close>

definition init :: "int \<Rightarrow> error + board" where
  "init sz =
     (if sz = 0 then Inl ZeroDivisionError
      else Inr \<lparr> board_size = sz,
                 grid = replicate (nat sz) (replicate (nat sz) None),
                 prev_grid = None,
                 undo_available = False,
                 score = 0,
                 tile_size = (392 - 8 * of_int sz) / of_int sz \<rparr>)"

text \<open>\<^verbatim>\<open>range(self._size)\<close>, empty for a size below one.\<close>

definition indices :: "board \<Rightarrow> nat list" where
  "indices b = [0..<nat (board_size b)]"

text \<open>\<^verbatim>\<open>self._grid[y][x]\<close>, read and written.\<close>

definition cell :: "int option list list \<Rightarrow> nat \<Rightarrow> nat \<Rightarrow> int option" where
  "cell g x y = g ! y ! x"

definition put :: "int option list list \<Rightarrow> nat \<Rightarrow> nat \<Rightarrow> int option \<Rightarrow> int option list list" where
  "put g x y v = g[y := (g ! y)[x := v]]"

text \<open>
  A Python index into a list of length \<open>n\<close>: a negative one counts from the end. An index
  outside the list raises in Python and is not modelled: on a grid of \<open>n\<close> rows of \<open>n\<close>
  cells the loops below never compute one, since a line gives at most \<open>n\<close> values to
  write back (lemmas \<open>line_values_length\<close>, \<open>place_row_right\<close>, \<open>place_column_down\<close>).
\<close>

definition py_idx :: "nat \<Rightarrow> int \<Rightarrow> nat" where
  "py_idx n i = nat (if i < 0 then int n + i else i)"

subsection \<open>The four swipes\<close>

text \<open>
  The body of the scanning loop, the same in the four swipes: the cell is read and
  cleared, and a tile either merges with the last output value or is appended.
\<close>

definition scan_tile ::
  "nat \<Rightarrow> nat \<Rightarrow> int option list list \<times> int list \<times> int \<Rightarrow> int option list list \<times> int list \<times> int"
where
  "scan_tile x y s =
     (case s of (g, row, sc) \<Rightarrow>
        (let cur_tile = cell g x y; g' = put g x y None in
         case cur_tile of
           None \<Rightarrow> (g', row, sc)
         | Some t \<Rightarrow>
             if t = last row
             then (let row' = row[length row - 1 := t * 2] in (g', row' @ [0], sc + last row'))
             else (g', row @ [t], sc)))"

text \<open>
  The body of the loop that writes the output back: along a row at index \<open>x\<close>, along a
  column at index \<open>y\<close>; \<open>d\<close> is the step of the index, 1 or -1.
\<close>

definition place_in_row :: "nat \<Rightarrow> int \<Rightarrow> int \<Rightarrow> int option list list \<times> int \<Rightarrow> int option list list \<times> int" where
  "place_in_row y d num s =
     (case s of (g, x) \<Rightarrow>
        if num \<noteq> 0 then (put g (py_idx (length (g ! y)) x) y (Some num), x + d) else (g, x))"

definition place_in_column :: "nat \<Rightarrow> int \<Rightarrow> int \<Rightarrow> int option list list \<times> int \<Rightarrow> int option list list \<times> int" where
  "place_in_column x d num s =
     (case s of (g, y) \<Rightarrow>
        if num \<noteq> 0 then (put g x (py_idx (length g) y) (Some num), y + d) else (g, y))"

text \<open>One round of the outer loop of each swipe.\<close>

definition swipe_left_row :: "nat \<Rightarrow> board \<Rightarrow> board" where
  "swipe_left_row y b =
     (case fold (\<lambda>x. scan_tile x y) (indices b) (grid b, [0], score b) of
        (g, row, sc) \<Rightarrow> b\<lparr>grid := fst (fold (place_in_row y 1) row (g, 0)), score := sc\<rparr>)"

definition swipe_right_row :: "nat \<Rightarrow> board \<Rightarrow> board" where
  "swipe_right_row y b =
     (case fold (\<lambda>x. scan_tile x y) (rev (indices b)) (grid b, [0], score b) of
        (g, row, sc) \<Rightarrow> b\<lparr>grid := fst (fold (place_in_row y (- 1)) row (g, - 1)), score := sc\<rparr>)"

definition swipe_up_column :: "nat \<Rightarrow> board \<Rightarrow> board" where
  "swipe_up_column x b =
     (case fold (\<lambda>y. scan_tile x y) (indices b) (grid b, [0], score b) of
        (g, column, sc) \<Rightarrow> b\<lparr>grid := fst (fold (place_in_column x 1) column (g, 0)), score := sc\<rparr>)"

definition swipe_down_column :: "nat \<Rightarrow> board \<Rightarrow> board" where
  "swipe_down_column x b =
     (case fold (\<lambda>y. scan_tile x y) (rev (indices b)) (grid b, [0], score b) of
        (g, column, sc) \<Rightarrow> b\<lparr>grid := fst (fold (place_in_column x (- 1)) column (g, - 1)), score := sc\<rparr>)"

definition swipe_left :: "board \<Rightarrow> board" where
  "swipe_left b = fold swipe_left_row (indices b) b"

definition swipe_right :: "board \<Rightarrow> board" where
  "swipe_right b = fold swipe_right_row (indices b) b"

definition swipe_up :: "board \<Rightarrow> board" where
  "swipe_up b = fold swipe_up_column (indices b) b"

definition swipe_down :: "board \<Rightarrow> board" where
  "swipe_down b = fold swipe_down_column (indices b) b"

subsection \<open>Empty cells and the new tile\<close>

text \<open>\<^verbatim>\<open>get_empty_tiles\<close>: the empty locations \<open>(x, y)\<close>, row by row.\<close>

definition get_empty_tiles :: "board \<Rightarrow> (nat \<times> nat) list" where
  "get_empty_tiles b =
     concat (map (\<lambda>y. concat (map (\<lambda>x. if cell (grid b) x y = None then [(x, y)] else [])
                                   (indices b)))
                 (indices b))"

text \<open>
  The random source: one draw for \<^verbatim>\<open>random.randint(1, 2)\<close> and one for
  \<^verbatim>\<open>random.choice\<close>. Every natural number is a draw, and every outcome of the two
  calls is the outcome of some draw. \<^verbatim>\<open>random.choice\<close> raises on an empty list.
\<close>

record rnd =
  randint_draw :: nat
  choice_draw :: nat

definition randint_1_2 :: "rnd \<Rightarrow> int" where
  "randint_1_2 r = 1 + int (randint_draw r mod 2)"

definition choice :: "rnd \<Rightarrow> 'a list \<Rightarrow> error + 'a" where
  "choice r xs = (if xs = [] then Inl IndexError else Inr (xs ! (choice_draw r mod length xs)))"

definition add_tile :: "rnd \<Rightarrow> board \<Rightarrow> error + board" where
  "add_tile r b =
     (let num = randint_1_2 r * 2 in
      case choice r (get_empty_tiles b) of
        Inl e \<Rightarrow> Inl e
      | Inr (x, y) \<Rightarrow> Inr (b\<lparr>grid := put (grid b) x y (Some num)\<rparr>))"

definition can_undo :: "board \<Rightarrow> bool" where
  "can_undo b = undo_available b"

subsection \<open>Moves and undo\<close>

definition perform_move :: "rnd \<Rightarrow> string \<Rightarrow> board \<Rightarrow> error + board" where
  "perform_move r direction b =
     (if direction \<notin> set [''l'', ''r'', ''u'', ''d''] then Inl AssertionError
      else
        (let copy = map (\<lambda>row. row) (grid b);
             b1 = (if direction = ''l'' then swipe_left b
                   else if direction = ''r'' then swipe_right b
                   else if direction = ''u'' then swipe_up b
                   else if direction = ''d'' then swipe_down b
                   else b)
         in if grid b1 \<noteq> copy
            then add_tile r (b1\<lparr>prev_grid := Some copy, undo_available := True\<rparr>)
            else Inr (b1\<lparr>grid := copy\<rparr>)))"

text \<open>\<^verbatim>\<open>undo\<close>: iterating over a previous grid that is \<^verbatim>\<open>None\<close> raises.\<close>

definition undo :: "board \<Rightarrow> error + board" where
  "undo b =
     (if undo_available b
      then (case prev_grid b of
              None \<Rightarrow> Inl TypeError
            | Some pg \<Rightarrow> Inr (b\<lparr>grid := map (\<lambda>row. row) pg, undo_available := False\<rparr>))
      else Inr b)"

text \<open>\<^verbatim>\<open>get_max\<close>: the highest tile, 0 on an empty board.\<close>

definition get_max :: "board \<Rightarrow> int" where
  "get_max b =
     fold (\<lambda>row m. fold (\<lambda>tile m'. case tile of None \<Rightarrow> m'
                                      | Some t \<Rightarrow> if t > m' then t else m') row m)
          (grid b) 0"

subsection \<open>Game over\<close>

text \<open>
  \<^verbatim>\<open>_get_adjacent_tiles\<close>, as written: the last neighbour is read at
  \<^verbatim>\<open>self._grid[y][y+1]\<close>.
\<close>

definition get_adjacent_tiles :: "board \<Rightarrow> nat \<Rightarrow> nat \<Rightarrow> error + int option list" where
  "get_adjacent_tiles b x y =
     (if \<not> (0 \<le> int x \<and> int x < board_size b) then Inl AssertionError
      else if \<not> (0 \<le> int y \<and> int y < board_size b) then Inl AssertionError
      else Inr ((if 0 < x then [cell (grid b) (x - 1) y] else [])
              @ (if int x < board_size b - 1 then [cell (grid b) (x + 1) y] else [])
              @ (if 0 < y then [cell (grid b) x (y - 1)] else [])
              @ (if int y < board_size b - 1 then [cell (grid b) (y + 1) y] else [])))"

text \<open>The double loop of \<^verbatim>\<open>is_game_over\<close> over the cells, which returns at the first hit.\<close>

fun game_over_scan :: "board \<Rightarrow> (nat \<times> nat) list \<Rightarrow> error + bool" where
  "game_over_scan b [] = Inr True"
| "game_over_scan b ((x, y) # cs) =
     (case get_adjacent_tiles b x y of
        Inl e \<Rightarrow> Inl e
      | Inr adj \<Rightarrow> if cell (grid b) x y \<in> set adj then Inr False else game_over_scan b cs)"

definition is_game_over :: "board \<Rightarrow> error + bool" where
  "is_game_over b =
     (if get_empty_tiles b \<noteq> [] then Inr False
      else game_over_scan b (concat (map (\<lambda>y. map (\<lambda>x. (x, y)) (indices b)) (indices b))))"

section \<open>Notions used to state and prove the properties\<close>

subsection \<open>Well-formed boards\<close>

text \<open>
  A grid of \<open>n\<close> rows of \<open>n\<close> cells. The constructor builds such a grid for the size it
  stores and no operation changes the dimensions: every board the engine produces is
  well-formed (lemma \<open>reachable_wf\<close>). On a well-formed board every index the swipes
  compute is in range, so no read or write raises.
\<close>

definition dims :: "nat \<Rightarrow> int option list list \<Rightarrow> bool" where
  "dims n g = (length g = n \<and> list_all (\<lambda>row. length row = n) g)"

definition wf_board :: "board \<Rightarrow> bool" where
  "wf_board b = dims (nat (board_size b)) (grid b)"

text \<open>The direction tokens that the assertion of \<^verbatim>\<open>perform_move\<close> accepts.\<close>

definition directions :: "string list" where
  "directions = [''l'', ''r'', ''u'', ''d'']"

text \<open>The swipe that \<^verbatim>\<open>perform_move\<close> runs for a direction, and one round of its outer loop.\<close>

definition swipe :: "string \<Rightarrow> board \<Rightarrow> board" where
  "swipe direction b =
     (if direction = ''l'' then swipe_left b
      else if direction = ''r'' then swipe_right b
      else if direction = ''u'' then swipe_up b
      else if direction = ''d'' then swipe_down b
      else b)"

definition swipe_line :: "string \<Rightarrow> nat \<Rightarrow> board \<Rightarrow> board" where
  "swipe_line direction i b =
     (if direction = ''l'' then swipe_left_row i b
      else if direction = ''r'' then swipe_right_row i b
      else if direction = ''u'' then swipe_up_column i b
      else if direction = ''d'' then swipe_down_column i b
      else b)"

subsection \<open>Cells and lines\<close>

definition in_range :: "nat \<Rightarrow> nat \<times> nat \<Rightarrow> bool" where
  "in_range n c = (fst c < n \<and> snd c < n)"

definition cell_at :: "int option list list \<Rightarrow> nat \<times> nat \<Rightarrow> int option" where
  "cell_at g c = cell g (fst c) (snd c)"

text \<open>
  The cells \<open>(x, y)\<close> of line \<open>i\<close> in the order in which a swipe scans them: a row from the
  left or from the right, a column from the top or from the bottom.
\<close>

definition line_cells :: "string \<Rightarrow> nat \<Rightarrow> nat \<Rightarrow> (nat \<times> nat) list" where
  "line_cells direction n i =
     (if direction = ''l'' then map (\<lambda>x. (x, i)) [0..<n]
      else if direction = ''r'' then map (\<lambda>x. (x, i)) (rev [0..<n])
      else if direction = ''u'' then map (\<lambda>y. (i, y)) [0..<n]
      else map (\<lambda>y. (i, y)) (rev [0..<n]))"

text \<open>The contents of line \<open>i\<close> of a grid, read in the scan order of the direction.\<close>

definition line_of :: "string \<Rightarrow> nat \<Rightarrow> int option list list \<Rightarrow> int option list" where
  "line_of direction i g = map (cell_at g) (line_cells direction (length g) i)"

text \<open>The tiles of a line: the values of its non-empty cells, in order.\<close>

definition tiles_of :: "int option list \<Rightarrow> int list" where
  "tiles_of line = concat (map (\<lambda>c. case c of None \<Rightarrow> [] | Some t \<Rightarrow> [t]) line)"

definition tile_value :: "int option \<Rightarrow> int" where
  "tile_value c = (case c of None \<Rightarrow> 0 | Some t \<Rightarrow> t)"

text \<open>The sum of the tile values of row \<open>y\<close> and of column \<open>x\<close>.\<close>

definition row_sum :: "int option list list \<Rightarrow> nat \<Rightarrow> int" where
  "row_sum g y = (\<Sum>x\<leftarrow>[0..<length g]. tile_value (cell g x y))"

definition column_sum :: "int option list list \<Rightarrow> nat \<Rightarrow> int" where
  "column_sum g x = (\<Sum>y\<leftarrow>[0..<length g]. tile_value (cell g x y))"

subsection \<open>The scan of one line, on lists\<close>

text \<open>
  What \<open>scan_tile\<close> does to the output list and the score, without the grid; the scan of a
  whole line from the sentinel; the values written back, the score gained and the line
  that results.
\<close>

definition merge_tile :: "int option \<Rightarrow> int list \<times> int \<Rightarrow> int list \<times> int" where
  "merge_tile c s =
     (case c of
        None \<Rightarrow> s
      | Some t \<Rightarrow>
          if t = last (fst s)
          then ((fst s)[length (fst s) - 1 := t * 2] @ [0], snd s + last ((fst s)[length (fst s) - 1 := t * 2]))
          else (fst s @ [t], snd s))"

definition merge_line :: "int option list \<Rightarrow> int list \<times> int" where
  "merge_line line = fold merge_tile line ([0], 0)"

definition line_values :: "int option list \<Rightarrow> int list" where
  "line_values line = filter (\<lambda>v. v \<noteq> 0) (fst (merge_line line))"

definition line_gain :: "int option list \<Rightarrow> int" where
  "line_gain line = snd (merge_line line)"

definition line_out :: "nat \<Rightarrow> int option list \<Rightarrow> int option list" where
  "line_out n line = map Some (line_values line) @ replicate (n - length (line_values line)) None"

text \<open>
  A block of tiles that end in one output cell: a tile alone, or two equal tiles merged.
  The score gained by a block is the value of the merged tile.
\<close>

fun merge_block :: "int list \<Rightarrow> bool" where
  "merge_block [t] = True"
| "merge_block [t, u] = (t = u)"
| "merge_block bl = False"

definition block_gain :: "int list \<Rightarrow> int" where
  "block_gain bl = (if length bl = 2 then sum_list bl else 0)"

subsection \<open>The scan of one line, on the grid\<close>

definition set_cells :: "((nat \<times> nat) \<times> int option) list \<Rightarrow> int option list list \<Rightarrow> int option list list" where
  "set_cells ps g = fold (\<lambda>p g'. put g' (fst (fst p)) (snd (fst p)) (snd p)) ps g"

definition scan_cells ::
  "(nat \<times> nat) list \<Rightarrow> int option list list \<times> int list \<times> int \<Rightarrow> int option list list \<times> int list \<times> int" where
  "scan_cells cs s = fold (\<lambda>c. scan_tile (fst c) (snd c)) cs s"

definition place_at :: "(nat \<Rightarrow> nat \<times> nat) \<Rightarrow> int list \<Rightarrow> nat \<Rightarrow> ((nat \<times> nat) \<times> int option) list" where
  "place_at pos vs k = map (\<lambda>j. (pos (k + j), Some (vs ! j))) [0..<length vs]"

definition line_pass :: "(nat \<times> nat) list \<Rightarrow> int option list list \<Rightarrow> int option list list" where
  "line_pass cs g =
     set_cells (zip cs (map Some (line_values (map (cell_at g) cs))))
       (set_cells (map (\<lambda>c. (c, None)) cs) g)"

text \<open>The state of a swipe after the lines below \<open>k\<close> are done.\<close>

definition lines_done :: "string \<Rightarrow> nat \<Rightarrow> nat \<Rightarrow> board \<Rightarrow> board \<Rightarrow> bool" where
  "lines_done d n k b b' =
     (b' = b\<lparr>grid := grid b', score := score b'\<rparr> \<and>
      dims n (grid b') \<and>
      score b' = score b + (\<Sum>i\<leftarrow>[0..<k]. line_gain (map (cell_at (grid b)) (line_cells d n i))) \<and>
      (\<forall>i<k. map (cell_at (grid b')) (line_cells d n i) =
               line_out n (map (cell_at (grid b)) (line_cells d n i))) \<and>
      (\<forall>c. in_range n c \<longrightarrow> (\<forall>i<k. c \<notin> set (line_cells d n i)) \<longrightarrow>
             cell_at (grid b') c = cell_at (grid b) c))"

subsection \<open>Sums, valid tiles and reachable boards\<close>

text \<open>The sum of all tile values of a grid.\<close>

definition grid_sum :: "int option list list \<Rightarrow> int" where
  "grid_sum g = (\<Sum>y\<leftarrow>[0..<length g]. row_sum g y)"

text \<open>A tile value of the game: a power of two that is at least 2.\<close>

definition pow2_tile :: "int \<Rightarrow> bool" where
  "pow2_tile v = (\<exists>k\<in>{1..nat v}. v = 2 ^ k)"

definition valid_grid :: "int option list list \<Rightarrow> bool" where
  "valid_grid g = list_all (list_all (\<lambda>c. case c of None \<Rightarrow> True | Some v \<Rightarrow> pow2_tile v)) g"

text \<open>
  The boards that the operations of the engine produce from a freshly constructed board,
  for any draws of the random source and any arguments.
\<close>

inductive reachable :: "board \<Rightarrow> bool" where
  reachable_init: "init sz = Inr b \<Longrightarrow> reachable b"
| reachable_move: "reachable b \<Longrightarrow> perform_move r direction b = Inr b' \<Longrightarrow> reachable b'"
| reachable_add: "reachable b \<Longrightarrow> add_tile r b = Inr b' \<Longrightarrow> reachable b'"
| reachable_undo: "reachable b \<Longrightarrow> undo b = Inr b' \<Longrightarrow> reachable b'"

text \<open>What holds of every reachable board.\<close>

definition board_inv :: "board \<Rightarrow> bool" where
  "board_inv b =
     (wf_board b \<and> valid_grid (grid b) \<and>
      (undo_available b \<longrightarrow> prev_grid b \<noteq> None) \<and>
      (case prev_grid b of None \<Rightarrow> True
       | Some pg \<Rightarrow> dims (nat (board_size b)) pg \<and> valid_grid pg))"

subsection \<open>Game over, as documented\<close>

text \<open>
  The values of the tiles adjacent to \<open>(x, y)\<close>, as the docstring of
  \<^verbatim>\<open>_get_adjacent_tiles\<close> describes them: left, right, above and below, where they exist.
  No move is left when the grid is full and no cell has its value among them.
\<close>

definition neighbours :: "board \<Rightarrow> nat \<Rightarrow> nat \<Rightarrow> int option list" where
  "neighbours b x y =
     (if 0 < x then [cell (grid b) (x - 1) y] else [])
   @ (if int x < board_size b - 1 then [cell (grid b) (x + 1) y] else [])
   @ (if 0 < y then [cell (grid b) x (y - 1)] else [])
   @ (if int y < board_size b - 1 then [cell (grid b) x (y + 1)] else [])"

definition no_moves_left :: "board \<Rightarrow> bool" where
  "no_moves_left b =
     (get_empty_tiles b = [] \<and>
      list_all (\<lambda>y. list_all (\<lambda>x. cell (grid b) x y \<notin> set (neighbours b x y)) (indices b)) (indices b))"

subsection \<open>Example boards\<close>

text \<open>Boards of size 2, and draws of the random source.\<close>

definition board_a :: board where
  "board_a = \<lparr>board_size = 2, grid = [[Some 2, Some 2], [None, Some 4]], prev_grid = None,
               undo_available = False, score = 0, tile_size = 188\<rparr>"

definition board_b :: board where
  "board_b = \<lparr>board_size = 2, grid = [[Some 2, None], [Some 4, None]], prev_grid = None,
               undo_available = False, score = 0, tile_size = 188\<rparr>"

definition board_c :: board where
  "board_c = \<lparr>board_size = 2, grid = [[Some 2, Some 4], [Some 4, Some 2]], prev_grid = None,
               undo_available = False, score = 0, tile_size = 188\<rparr>"

definition draw_0 :: rnd where
  "draw_0 = \<lparr>randint_draw = 0, choice_draw = 0\<rparr>"

text \<open>
  The start of a game on a board of size 2: the fresh board, the boards after one and two
  calls of \<open>add_tile\<close>, and the board after a move to the left.
\<close>

definition game_0 :: board where
  "game_0 = \<lparr>board_size = 2, grid = [[None, None], [None, None]], prev_grid = None,
              undo_available = False, score = 0, tile_size = 188\<rparr>"

definition game_1 :: board where
  "game_1 = \<lparr>board_size = 2, grid = [[Some 2, None], [None, None]], prev_grid = None,
              undo_available = False, score = 0, tile_size = 188\<rparr>"

definition game_2 :: board where
  "game_2 = \<lparr>board_size = 2, grid = [[Some 2, Some 2], [None, None]], prev_grid = None,
              undo_available = False, score = 0, tile_size = 188\<rparr>"

definition game_3 :: board where
  "game_3 = \<lparr>board_size = 2, grid = [[Some 4, Some 2], [None, None]],
              prev_grid = Some [[Some 2, Some 2], [None, None]],
              undo_available = True, score = 4, tile_size = 188\<rparr>"

text \<open>Boards of size 4 with one row of tiles.\<close>

definition board_r :: board where
  "board_r = \<lparr>board_size = 4,
               grid = [[Some 2, Some 4, Some 2, Some 2], [None, None, None, None],
                       [None, None, None, None], [None, None, None, None]],
               prev_grid = None, undo_available = False, score = 0, tile_size = 90\<rparr>"

definition board_l :: board where
  "board_l = \<lparr>board_size = 4,
               grid = [[None, None, None, None], [Some 2, Some 2, Some 2, Some 2],
                       [None, None, None, None], [None, None, None, None]],
               prev_grid = None, undo_available = False, score = 0, tile_size = 90\<rparr>"

section \<open>Supporting lemmas\<close>

subsection \<open>Grids and cells\<close>

text \<open>Reading and writing cells of a grid of known dimensions.\<close>

lemma dims_nth: "dims n g \<Longrightarrow> y < n \<Longrightarrow> length (g ! y) = n"
  by (simp add: dims_def list_all_length)

lemma dims_length: "dims n g \<Longrightarrow> length g = n"
  by (simp add: dims_def)

lemma dims_put: "dims n g \<Longrightarrow> dims n (put g x y v)"
  by (cases "y < length g") (auto simp: dims_def put_def list_all_length nth_list_update)

lemma cell_put:
  "dims n g \<Longrightarrow> x < n \<Longrightarrow> y < n \<Longrightarrow> x' < n \<Longrightarrow> y' < n \<Longrightarrow>
   cell (put g x y v) x' y' = (if x' = x \<and> y' = y then v else cell g x' y')"
  by (auto simp: dims_def put_def cell_def list_all_length nth_list_update)

lemma grid_ext:
  assumes "dims n g" "dims n g'" "\<And>x y. x < n \<Longrightarrow> y < n \<Longrightarrow> cell g x y = cell g' x y"
  shows "g = g'"
proof (rule nth_equalityI)
  show "length g = length g'" using assms by (simp add: dims_def)
next
  fix y assume "y < length g"
  then have y: "y < n" using assms(1) by (simp add: dims_def)
  show "g ! y = g' ! y"
  proof (rule nth_equalityI)
    show "length (g ! y) = length (g' ! y)" using assms(1,2) y by (simp add: dims_nth)
  next
    fix x assume "x < length (g ! y)"
    then have "x < n" using assms(1) y by (simp add: dims_nth)
    then show "g ! y ! x = g' ! y ! x" using assms(3)[of x y] y by (simp add: cell_def)
  qed
qed

lemma set_cells_Nil [simp]: "set_cells [] g = g"
  by (simp add: set_cells_def)

lemma set_cells_Cons [simp]: "set_cells (p # ps) g = set_cells ps (put g (fst (fst p)) (snd (fst p)) (snd p))"
  by (simp add: set_cells_def)

lemma set_cells_append: "set_cells (ps @ qs) g = set_cells qs (set_cells ps g)"
  by (simp add: set_cells_def)

lemma dims_set_cells: "dims n g \<Longrightarrow> dims n (set_cells ps g)"
  by (induction ps arbitrary: g) (simp_all add: dims_put)

lemma cell_at_set_cells:
  "dims n g \<Longrightarrow> list_all (in_range n) (map fst ps) \<Longrightarrow> distinct (map fst ps) \<Longrightarrow> in_range n c \<Longrightarrow>
   cell_at (set_cells ps g) c = (case map_of ps c of None \<Rightarrow> cell_at g c | Some v \<Rightarrow> v)"
proof (induction ps arbitrary: g)
  case Nil
  then show ?case by simp
next
  case (Cons p ps)
  obtain x y v where p: "p = ((x, y), v)" by (metis prod.collapse)
  have r: "x < n" "y < n" using Cons.prems(2) by (simp_all add: p in_range_def)
  have notin: "map_of ps (x, y) = None"
    using Cons.prems(3) by (simp add: p map_of_eq_None_iff)
  have "cell_at (set_cells ps (put g x y v)) c =
        (case map_of ps c of None \<Rightarrow> cell_at (put g x y v) c | Some v \<Rightarrow> v)"
    using Cons.prems by (intro Cons.IH) (simp_all add: dims_put)
  then show ?case
    using r Cons.prems(1,4) notin
    by (cases c) (auto simp: p cell_at_def in_range_def cell_put split: option.splits)
qed

subsection \<open>The scanning loop and the write-back loop\<close>

text \<open>
  Scanning a list of distinct cells clears them and runs \<open>merge_tile\<close> over what they
  held; the write-back loops set the cells counted from the end of the line the tiles
  move to.
\<close>

lemma scan_tile_merge:
  "scan_tile x y (g, row, sc) =
     (put g x y None, fst (merge_tile (cell g x y) (row, sc)), snd (merge_tile (cell g x y) (row, sc)))"
  by (simp add: scan_tile_def merge_tile_def Let_def split: option.splits)

lemma scan_cells_eq:
  "dims n g \<Longrightarrow> list_all (in_range n) cs \<Longrightarrow> distinct cs \<Longrightarrow>
   scan_cells cs (g, row, sc) =
     (set_cells (map (\<lambda>c. (c, None)) cs) g,
      fst (fold merge_tile (map (cell_at g) cs) (row, sc)),
      snd (fold merge_tile (map (cell_at g) cs) (row, sc)))"
proof (induction cs arbitrary: g row sc)
  case Nil
  then show ?case by (simp add: scan_cells_def)
next
  case (Cons c cs)
  let ?g1 = "put g (fst c) (snd c) None"
  have c: "fst c < n" "snd c < n" using Cons.prems(2) by (simp_all add: in_range_def)
  have same: "map (cell_at ?g1) cs = map (cell_at g) cs"
  proof (rule map_cong[OF refl])
    fix d assume d: "d \<in> set cs"
    then have "in_range n d" using Cons.prems(2) by (auto simp: list_all_iff)
    moreover have "d \<noteq> c" using d Cons.prems(3) by auto
    ultimately show "cell_at ?g1 d = cell_at g d"
      using Cons.prems(1) c by (cases d; cases c) (auto simp: cell_at_def in_range_def cell_put)
  qed
  have step: "scan_cells (c # cs) (g, row, sc) =
              scan_cells cs (?g1, fst (merge_tile (cell_at g c) (row, sc)), snd (merge_tile (cell_at g c) (row, sc)))"
    by (simp add: scan_cells_def scan_tile_merge cell_at_def)
  show ?case
    unfolding step
    using Cons.prems
    by (subst Cons.IH) (simp_all add: dims_put same)
qed

lemma place_at_Nil [simp]: "place_at pos [] k = []"
  by (simp add: place_at_def)

lemma place_at_Cons: "place_at pos (v # vs) k = (pos k, Some v) # place_at pos vs (Suc k)"
proof -
  have "[0..<length (v # vs)] = 0 # map Suc [0..<length vs]"
    by (simp add: upt_conv_Cons map_Suc_upt del: upt_Suc)
  then show ?thesis by (simp add: place_at_def o_def)
qed

lemma place_row_left:
  "fst (fold (place_in_row y 1) row (g, int k)) =
   set_cells (place_at (\<lambda>j. (j, y)) (filter (\<lambda>v. v \<noteq> 0) row) k) g"
proof (induction row arbitrary: g k)
  case Nil
  then show ?case by simp
next
  case (Cons v row)
  show ?case
  proof (cases "v = 0")
    case True
    then have "place_in_row y 1 v (g, int k) = (g, int k)" by (simp add: place_in_row_def)
    then show ?thesis using True by (simp add: Cons.IH)
  next
    case False
    then have "place_in_row y 1 v (g, int k) = (put g k y (Some v), int (Suc k))"
      by (simp add: place_in_row_def py_idx_def)
    then show ?thesis
      using False by (simp add: Cons.IH place_at_Cons del: of_nat_Suc)
  qed
qed

lemma place_column_up:
  "fst (fold (place_in_column x 1) row (g, int k)) =
   set_cells (place_at (\<lambda>j. (x, j)) (filter (\<lambda>v. v \<noteq> 0) row) k) g"
proof (induction row arbitrary: g k)
  case Nil
  then show ?case by simp
next
  case (Cons v row)
  show ?case
  proof (cases "v = 0")
    case True
    then have "place_in_column x 1 v (g, int k) = (g, int k)" by (simp add: place_in_column_def)
    then show ?thesis using True by (simp add: Cons.IH)
  next
    case False
    then have "place_in_column x 1 v (g, int k) = (put g x k (Some v), int (Suc k))"
      by (simp add: place_in_column_def py_idx_def)
    then show ?thesis
      using False by (simp add: Cons.IH place_at_Cons del: of_nat_Suc)
  qed
qed

lemma place_row_right:
  "dims n g \<Longrightarrow> y < n \<Longrightarrow> k + length (filter (\<lambda>v. v \<noteq> 0) row) \<le> n \<Longrightarrow>
   fst (fold (place_in_row y (- 1)) row (g, - 1 - int k)) =
   set_cells (place_at (\<lambda>j. (n - 1 - j, y)) (filter (\<lambda>v. v \<noteq> 0) row) k) g"
proof (induction row arbitrary: g k)
  case Nil
  then show ?case by simp
next
  case (Cons v row)
  show ?case
  proof (cases "v = 0")
    case True
    then have "place_in_row y (- 1) v (g, - 1 - int k) = (g, - 1 - int k)"
      by (simp add: place_in_row_def)
    then show ?thesis using True Cons.prems by (simp add: Cons.IH)
  next
    case False
    have k: "k < n" using Cons.prems(3) False by simp
    have idx: "py_idx (length (g ! y)) (- 1 - int k) = n - 1 - k"
      using Cons.prems(1,2) k by (simp add: py_idx_def dims_nth)
    have "place_in_row y (- 1) v (g, - 1 - int k) = (put g (n - 1 - k) y (Some v), - 1 - int (Suc k))"
      using False by (simp add: place_in_row_def idx)
    then show ?thesis
      using False Cons.prems by (simp add: Cons.IH place_at_Cons dims_put del: of_nat_Suc)
  qed
qed

lemma place_column_down:
  "dims n g \<Longrightarrow> k + length (filter (\<lambda>v. v \<noteq> 0) row) \<le> n \<Longrightarrow>
   fst (fold (place_in_column x (- 1)) row (g, - 1 - int k)) =
   set_cells (place_at (\<lambda>j. (x, n - 1 - j)) (filter (\<lambda>v. v \<noteq> 0) row) k) g"
proof (induction row arbitrary: g k)
  case Nil
  then show ?case by simp
next
  case (Cons v row)
  show ?case
  proof (cases "v = 0")
    case True
    then have "place_in_column x (- 1) v (g, - 1 - int k) = (g, - 1 - int k)"
      by (simp add: place_in_column_def)
    then show ?thesis using True Cons.prems by (simp add: Cons.IH)
  next
    case False
    have k: "k < n" using Cons.prems(2) False by simp
    have idx: "py_idx (length g) (- 1 - int k) = n - 1 - k"
      using Cons.prems(1) k by (simp add: py_idx_def dims_length)
    have "place_in_column x (- 1) v (g, - 1 - int k) = (put g x (n - 1 - k) (Some v), - 1 - int (Suc k))"
      using False by (simp add: place_in_column_def idx)
    then show ?thesis
      using False Cons.prems by (simp add: Cons.IH place_at_Cons dims_put del: of_nat_Suc)
  qed
qed

subsection \<open>One line, on lists\<close>

lemma tiles_of_simps [simp]:
  "tiles_of [] = []"
  "tiles_of (None # line) = tiles_of line"
  "tiles_of (Some t # line) = t # tiles_of line"
  "tiles_of (xs @ ys) = tiles_of xs @ tiles_of ys"
  by (simp_all add: tiles_of_def)

lemma tiles_of_map_Some [simp]: "tiles_of (map Some vs) = vs"
  by (induction vs) simp_all

lemma tiles_of_replicate_None [simp]: "tiles_of (replicate k None) = []"
  by (induction k) simp_all

lemma length_tiles_of: "length (tiles_of line) \<le> length line"
proof (induction line)
  case Nil
  then show ?case by simp
next
  case (Cons c line)
  then show ?case by (cases c) simp_all
qed

lemma tiles_of_full: "length (tiles_of line) = length line \<Longrightarrow> line = map Some (tiles_of line)"
proof (induction line)
  case Nil
  then show ?case by simp
next
  case (Cons c line)
  show ?case
  proof (cases c)
    case None
    then show ?thesis using Cons.prems length_tiles_of[of line] by simp
  next
    case (Some t)
    then show ?thesis using Cons by simp
  qed
qed

lemma update_last: "row \<noteq> [] \<Longrightarrow> row[length row - Suc 0 := v] = butlast row @ [v]"
  by (induction row rule: rev_induct) simp_all

lemma merge_tile_None [simp]: "merge_tile None s = s"
  by (simp add: merge_tile_def)

lemma merge_tile_Some:
  "row \<noteq> [] \<Longrightarrow> merge_tile (Some t) (row, sc) =
     (if t = last row then (butlast row @ [t * 2, 0], sc + t * 2) else (row @ [t], sc))"
  by (simp add: merge_tile_def update_last)

lemma merge_tile_nonempty: "fst s \<noteq> [] \<Longrightarrow> fst (merge_tile c s) \<noteq> []"
  by (cases c) (simp_all add: merge_tile_def)

lemma fold_merge_nonempty: "fst s \<noteq> [] \<Longrightarrow> fst (fold merge_tile line s) \<noteq> []"
  by (induction line arbitrary: s) (simp_all add: merge_tile_nonempty)

lemma merge_tile_score:
  "merge_tile c (row, sc) = (fst (merge_tile c (row, 0)), sc + snd (merge_tile c (row, 0)))"
  by (cases c) (simp_all add: merge_tile_def)

lemma fold_merge_score:
  "fold merge_tile line (row, sc) =
     (fst (fold merge_tile line (row, 0)), sc + snd (fold merge_tile line (row, 0)))"
proof (induction line arbitrary: row sc)
  case Nil
  then show ?case by simp
next
  case (Cons c line)
  obtain r d where m: "merge_tile c (row, 0) = (r, d)" by (cases "merge_tile c (row, 0)")
  have m': "merge_tile c (row, sc) = (r, sc + d)" using merge_tile_score[of c row sc] m by simp
  show ?case
    using Cons.IH[of r "sc + d"] Cons.IH[of r d] by (simp add: m m')
qed

lemma merge_line_snoc: "merge_line (line @ [c]) = merge_tile c (merge_line line)"
  by (simp add: merge_line_def)

lemma merge_line_nonempty: "fst (merge_line line) \<noteq> []"
  by (simp add: merge_line_def fold_merge_nonempty)

text \<open>The facts about one line, by induction from the end of the line.\<close>

lemma merge_line_sum: "sum_list (fst (merge_line line)) = sum_list (tiles_of line)"
proof (induction line rule: rev_induct)
  case Nil
  then show ?case by (simp add: merge_line_def)
next
  case (snoc c line)
  obtain row sc where s: "merge_line line = (row, sc)" by (cases "merge_line line")
  have ne: "row \<noteq> []" using merge_line_nonempty[of line] s by simp
  then have split: "sum_list row = sum_list (butlast row) + last row"
    by (induction row rule: rev_induct) simp_all
  show ?case
  proof (cases c)
    case None
    then show ?thesis using snoc by (simp add: merge_line_snoc)
  next
    case (Some t)
    then show ?thesis
      using snoc s ne split by (simp add: merge_line_snoc merge_tile_Some)
  qed
qed

lemma sum_filter_nonzero: "sum_list (filter (\<lambda>v. v \<noteq> 0) (xs::int list)) = sum_list xs"
  by (induction xs) simp_all

lemma line_values_sum: "sum_list (line_values line) = sum_list (tiles_of line)"
  by (simp add: line_values_def sum_filter_nonzero merge_line_sum)

lemma merge_line_count:
  "length (line_values line) \<le> length (tiles_of line) \<and>
   (length (line_values line) = length (tiles_of line) \<longrightarrow>
      fst (merge_line line) = 0 # tiles_of line \<and> snd (merge_line line) = 0 \<and> 0 \<notin> set (tiles_of line))"
proof (induction line rule: rev_induct)
  case Nil
  then show ?case by (simp add: merge_line_def line_values_def)
next
  case (snoc c line)
  obtain row sc where s: "merge_line line = (row, sc)" by (cases "merge_line line")
  have ne: "row \<noteq> []" using merge_line_nonempty[of line] s by simp
  then have split: "row = butlast row @ [last row]" by simp
  have nz: "length (filter (\<lambda>v. v \<noteq> 0) row) =
            length (filter (\<lambda>v. v \<noteq> 0) (butlast row)) + (if last row \<noteq> 0 then 1 else 0)"
    by (subst split) (simp del: append_butlast_last_id)
  have IH1: "length (filter (\<lambda>v. v \<noteq> 0) row) \<le> length (tiles_of line)"
    using snoc s by (simp add: line_values_def)
  have IH2: "length (filter (\<lambda>v. v \<noteq> 0) row) = length (tiles_of line) \<Longrightarrow>
             row = 0 # tiles_of line \<and> sc = 0 \<and> 0 \<notin> set (tiles_of line)"
    using snoc s by (simp add: line_values_def)
  show ?case
  proof (cases c)
    case None
    then show ?thesis using snoc by (simp add: merge_line_snoc line_values_def)
  next
    case (Some t)
    show ?thesis
    proof (cases "t = last row")
      case True
      then have m: "merge_line (line @ [Some t]) = (butlast row @ [t * 2, 0], sc + t * 2)"
        using Some s ne by (simp add: merge_line_snoc merge_tile_Some)
      have "length (filter (\<lambda>v. v \<noteq> 0) (butlast row @ [t * 2, 0])) = length (filter (\<lambda>v. v \<noteq> 0) row)"
        using nz True by simp
      then show ?thesis using IH1 Some by (simp add: m line_values_def)
    next
      case False
      then have m: "merge_line (line @ [Some t]) = (row @ [t], sc)"
        using Some s ne by (simp add: merge_line_snoc merge_tile_Some)
      show ?thesis using IH1 IH2 Some by (auto simp: m line_values_def)
    qed
  qed
qed

lemma line_values_length: "length (line_values line) \<le> length line"
  using merge_line_count[of line] length_tiles_of[of line] by simp

lemma length_line_out: "length line = n \<Longrightarrow> length (line_out n line) = n"
  using line_values_length[of line] by (simp add: line_out_def)

lemma tiles_of_line_out [simp]: "tiles_of (line_out n line) = line_values line"
  by (simp add: line_out_def)

lemma line_out_sum: "sum_list (tiles_of (line_out n line)) = sum_list (tiles_of line)"
  by (simp add: line_values_sum)

lemma line_unchanged_gain: "line_out n line = line \<Longrightarrow> line_gain line = 0"
proof -
  assume "line_out n line = line"
  then have "tiles_of (line_out n line) = tiles_of line" by simp
  then have "length (line_values line) = length (tiles_of line)" by simp
  then show ?thesis using merge_line_count[of line] by (simp add: line_gain_def)
qed

lemma line_full_unchanged:
  assumes "length line = n" "None \<notin> set (line_out n line)"
  shows "line_out n line = line"
proof -
  have le: "length (line_values line) \<le> length (tiles_of line)" "length (tiles_of line) \<le> n"
    using merge_line_count[of line] length_tiles_of[of line] assms(1) by simp_all
  have "n - length (line_values line) = 0"
    using assms(2) by (auto simp: line_out_def)
  then have eq: "length (line_values line) = length (tiles_of line)" "length (tiles_of line) = length line"
    using le assms(1) by simp_all
  then have "fst (merge_line line) = 0 # tiles_of line" "0 \<notin> set (tiles_of line)"
    using merge_line_count[of line] by simp_all
  then have "line_values line = tiles_of line"
    by (auto simp: line_values_def filter_id_conv)
  then show ?thesis
    using eq tiles_of_full[of line] assms(1) by (simp add: line_out_def)
qed

subsection \<open>One line, on the grid\<close>

lemma dims_line_pass: "dims n g \<Longrightarrow> dims n (line_pass cs g)"
  by (simp add: line_pass_def dims_set_cells)

lemma zip_take_left: "zip (take (length ys) xs) ys = zip xs ys"
  by (induction xs ys rule: list_induct2') simp_all

lemma cell_at_clear:
  assumes "dims n g" "list_all (in_range n) cs" "distinct cs" "in_range n c"
  shows "cell_at (set_cells (map (\<lambda>c. (c, None)) cs) g) c = (if c \<in> set cs then None else cell_at g c)"
proof -
  let ?ps = "map (\<lambda>c. (c, None::int option)) cs"
  have "cell_at (set_cells ?ps g) c = (case map_of ?ps c of None \<Rightarrow> cell_at g c | Some v \<Rightarrow> v)"
    using assms by (intro cell_at_set_cells) (simp_all add: o_def)
  moreover have "map_of ?ps c = (if c \<in> set cs then Some None else None)"
    by (induction cs) auto
  ultimately show ?thesis by simp
qed

lemma line_pass_other:
  assumes "dims n g" "list_all (in_range n) cs" "distinct cs" "in_range n c" "c \<notin> set cs"
  shows "cell_at (line_pass cs g) c = cell_at g c"
proof -
  let ?vs = "map Some (line_values (map (cell_at g) cs))"
  let ?g1 = "set_cells (map (\<lambda>c. (c, None)) cs) g"
  have fst1: "map fst (map (\<lambda>c. (c, None::int option)) cs) = cs" by (simp add: o_def)
  have d1: "dims n ?g1" using assms(1) by (rule dims_set_cells)
  have len: "length ?vs \<le> length cs" using line_values_length[of "map (cell_at g) cs"] by simp
  then have fst2: "map fst (zip cs ?vs) = take (length ?vs) cs"
    by (simp add: map_fst_zip_take min_def)
  have r2: "list_all (in_range n) (map fst (zip cs ?vs))"
    unfolding fst2 using assms(2) by (auto simp: list_all_iff dest: in_set_takeD)
  have dist2: "distinct (map fst (zip cs ?vs))"
    unfolding fst2 using assms(3) by simp
  have none2: "map_of (zip cs ?vs) c = None"
    using assms(5) by (auto simp: map_of_eq_None_iff dest: set_zip_leftD)
  have "cell_at (line_pass cs g) c = cell_at ?g1 c"
    unfolding line_pass_def using cell_at_set_cells[OF d1 r2 dist2 assms(4)] none2 by simp
  also have "\<dots> = cell_at g c"
    using cell_at_clear[OF assms(1-4)] assms(5) by simp
  finally show ?thesis .
qed

lemma line_pass_line:
  assumes "dims n g" "list_all (in_range n) cs" "distinct cs" "length cs = n"
  shows "map (cell_at (line_pass cs g)) cs = line_out n (map (cell_at g) cs)"
proof (rule nth_equalityI)
  show "length (map (cell_at (line_pass cs g)) cs) = length (line_out n (map (cell_at g) cs))"
    using assms(4) by (simp add: length_line_out)
next
  fix i assume "i < length (map (cell_at (line_pass cs g)) cs)"
  then have i: "i < n" using assms(4) by simp
  let ?lv = "line_values (map (cell_at g) cs)"
  let ?vs = "map Some ?lv"
  let ?g1 = "set_cells (map (\<lambda>c. (c, None)) cs) g"
  have fst1: "map fst (map (\<lambda>c. (c, None::int option)) cs) = cs" by (simp add: o_def)
  have d1: "dims n ?g1" using assms(1) by (rule dims_set_cells)
  have len: "length ?vs \<le> length cs" using line_values_length[of "map (cell_at g) cs"] by simp
  then have fst2: "map fst (zip cs ?vs) = take (length ?vs) cs"
    by (simp add: map_fst_zip_take min_def)
  have r2: "list_all (in_range n) (map fst (zip cs ?vs))"
    unfolding fst2 using assms(2) by (auto simp: list_all_iff dest: in_set_takeD)
  have dist2: "distinct (map fst (zip cs ?vs))"
    unfolding fst2 using assms(3) by simp
  have ci: "in_range n (cs ! i)" using assms(2,4) i by (simp add: list_all_length)
  have step2: "cell_at (line_pass cs g) (cs ! i) =
               (case map_of (zip cs ?vs) (cs ! i) of None \<Rightarrow> cell_at ?g1 (cs ! i) | Some v \<Rightarrow> v)"
    unfolding line_pass_def using cell_at_set_cells[OF d1 r2 dist2 ci] by simp
  have step1: "cell_at ?g1 (cs ! i) = None"
    using cell_at_clear[OF assms(1-3) ci] assms(4) i by simp
  show "map (cell_at (line_pass cs g)) cs ! i = line_out n (map (cell_at g) cs) ! i"
  proof (cases "i < length ?lv")
    case True
    have "take (length ?lv) cs ! i = cs ! i" using True by simp
    moreover have "map_of (zip (take (length ?lv) cs) ?vs) (take (length ?lv) cs ! i) = Some (?vs ! i)"
      using True len assms(3) by (intro map_of_zip_nth) simp_all
    moreover have "zip (take (length ?lv) cs) ?vs = zip cs ?vs"
      using zip_take_left[of ?vs cs] by simp
    ultimately have "map_of (zip cs ?vs) (cs ! i) = Some (?vs ! i)" by simp
    then show ?thesis
      using True i assms(4) step2 by (simp add: line_out_def nth_append)
  next
    case False
    have "cs ! i \<notin> set (take (length ?vs) cs)"
    proof
      assume "cs ! i \<in> set (take (length ?vs) cs)"
      then obtain j where j: "j < length ?vs" "j < length cs" "take (length ?vs) cs ! j = cs ! i"
        by (auto simp: in_set_conv_nth)
      then have "cs ! j = cs ! i" by simp
      then have "j = i" using assms(3,4) i j(2) by (simp add: nth_eq_iff_index_eq)
      then show False using False j(1) by simp
    qed
    moreover have "fst ` set (zip cs ?vs) = set (take (length ?vs) cs)"
      using fst2 by (metis set_map)
    ultimately have "map_of (zip cs ?vs) (cs ! i) = None"
      by (simp add: map_of_eq_None_iff)
    then show ?thesis
      using False i assms(4) step2 step1 by (simp add: line_out_def nth_append)
  qed
qed

text \<open>The scan of a line from an empty output, followed by the write-back.\<close>

lemma scan_cells_line:
  assumes "dims n g" "list_all (in_range n) cs" "distinct cs"
  shows "scan_cells cs (g, [0], sc) =
           (set_cells (map (\<lambda>c. (c, None)) cs) g,
            fst (merge_line (map (cell_at g) cs)),
            sc + line_gain (map (cell_at g) cs))"
  using scan_cells_eq[OF assms, of "[0]" sc] fold_merge_score[of "map (cell_at g) cs" "[0]" sc]
  by (simp add: merge_line_def line_gain_def)

lemma place_at_zip:
  "length vs \<le> length cs \<Longrightarrow> (\<And>j. j < length vs \<Longrightarrow> pos j = cs ! j) \<Longrightarrow>
   place_at pos vs 0 = zip cs (map Some vs)"
  by (rule nth_equalityI) (simp_all add: place_at_def)

subsection \<open>The lines of a grid\<close>

lemma length_line_cells [simp]: "length (line_cells d n i) = n"
  by (simp add: line_cells_def)

lemma distinct_line_cells: "distinct (line_cells d n i)"
  by (simp add: line_cells_def distinct_map inj_on_def)

lemma in_range_line_cells: "i < n \<Longrightarrow> list_all (in_range n) (line_cells d n i)"
  by (simp add: line_cells_def list_all_iff in_range_def)

lemma line_cells_disjoint: "i \<noteq> j \<Longrightarrow> c \<in> set (line_cells d n i) \<Longrightarrow> c \<notin> set (line_cells d n j)"
  by (auto simp: line_cells_def split: if_splits)

lemma line_cells_cover:
  assumes "in_range n c"
  shows "\<exists>i<n. c \<in> set (line_cells d n i)"
proof (cases "d = ''l'' \<or> d = ''r''")
  case True
  then have "snd c < n \<and> c \<in> set (line_cells d n (snd c))"
    using assms by (cases c) (auto simp: line_cells_def in_range_def)
  then show ?thesis by blast
next
  case False
  then have "fst c < n \<and> c \<in> set (line_cells d n (fst c))"
    using assms by (cases c) (auto simp: line_cells_def in_range_def)
  then show ?thesis by blast
qed

subsection \<open>A round of a swipe is a line pass\<close>

lemma swipe_fold: "swipe d b = fold (swipe_line d) (indices b) b"
proof -
  have "swipe_line d = (if d = ''l'' then swipe_left_row else if d = ''r'' then swipe_right_row
          else if d = ''u'' then swipe_up_column else if d = ''d'' then swipe_down_column else (\<lambda>i b. b))"
    by (intro ext) (simp add: swipe_line_def)
  moreover have "fold (\<lambda>i b. b) xs b = b" for xs :: "nat list"
    by (induction xs) simp_all
  ultimately show ?thesis
    by (simp add: swipe_def swipe_left_def swipe_right_def swipe_up_def swipe_down_def)
qed

lemma scan_row: "fold (\<lambda>x. scan_tile x y) xs s = scan_cells (map (\<lambda>x. (x, y)) xs) s"
  by (simp add: scan_cells_def fold_map o_def)

lemma scan_column: "fold (\<lambda>y. scan_tile x y) ys s = scan_cells (map (\<lambda>y. (x, y)) ys) s"
  by (simp add: scan_cells_def fold_map o_def)

lemma swipe_line_eq:
  assumes "d \<in> set directions" "wf_board b" "i < nat (board_size b)"
  shows "swipe_line d i b =
           b\<lparr>grid := line_pass (line_cells d (nat (board_size b)) i) (grid b),
             score := score b + line_gain (map (cell_at (grid b)) (line_cells d (nat (board_size b)) i))\<rparr>"
proof -
  let ?n = "nat (board_size b)"
  let ?cs = "line_cells d ?n i"
  let ?g1 = "set_cells (map (\<lambda>c. (c, None)) ?cs) (grid b)"
  let ?line = "map (cell_at (grid b)) ?cs"
  let ?row = "fst (merge_line ?line)"
  have dm: "dims ?n (grid b)" using assms(2) by (simp add: wf_board_def)
  have d1: "dims ?n ?g1" using dm by (rule dims_set_cells)
  have sc: "scan_cells ?cs (grid b, [0], score b) = (?g1, ?row, score b + line_gain ?line)"
    using scan_cells_line[OF dm in_range_line_cells[OF assms(3)] distinct_line_cells] .
  have len: "length (line_values ?line) \<le> ?n"
    using line_values_length[of ?line] by simp
  have lv: "filter (\<lambda>v. v \<noteq> 0) ?row = line_values ?line" by (simp add: line_values_def)
  consider "d = ''l''" | "d = ''r''" | "d = ''u''" | "d = ''d''"
    using assms(1) by (auto simp: directions_def)
  then show ?thesis
  proof cases
    case 1
    have cs: "?cs = map (\<lambda>x. (x, i)) [0..<?n]" by (simp add: line_cells_def 1)
    have "fst (fold (place_in_row i 1) ?row (?g1, int 0)) =
          set_cells (place_at (\<lambda>j. (j, i)) (line_values ?line) 0) ?g1"
      unfolding place_row_left lv ..
    moreover have "place_at (\<lambda>j. (j, i)) (line_values ?line) 0 = zip ?cs (map Some (line_values ?line))"
      using len by (intro place_at_zip) (simp_all add: cs)
    ultimately have "fst (fold (place_in_row i 1) ?row (?g1, 0)) = line_pass ?cs (grid b)"
      by (simp add: line_pass_def)
    then show ?thesis
      using sc by (simp add: swipe_line_def 1 swipe_left_row_def indices_def scan_row flip: cs)
  next
    case 2
    have cs: "?cs = map (\<lambda>x. (x, i)) (rev [0..<?n])" by (simp add: line_cells_def 2)
    have "fst (fold (place_in_row i (- 1)) ?row (?g1, - 1 - int 0)) =
          set_cells (place_at (\<lambda>j. (?n - 1 - j, i)) (line_values ?line) 0) ?g1"
      using place_row_right[OF d1 assms(3), of 0 ?row] len lv by simp
    moreover have "place_at (\<lambda>j. (?n - 1 - j, i)) (line_values ?line) 0 = zip ?cs (map Some (line_values ?line))"
      using len by (intro place_at_zip) (simp_all add: cs rev_nth)
    ultimately have "fst (fold (place_in_row i (- 1)) ?row (?g1, - 1)) = line_pass ?cs (grid b)"
      by (simp add: line_pass_def)
    then show ?thesis
      using sc by (simp add: swipe_line_def 2 swipe_right_row_def indices_def scan_row flip: cs)
  next
    case 3
    have cs: "?cs = map (\<lambda>y. (i, y)) [0..<?n]" by (simp add: line_cells_def 3)
    have "fst (fold (place_in_column i 1) ?row (?g1, int 0)) =
          set_cells (place_at (\<lambda>j. (i, j)) (line_values ?line) 0) ?g1"
      unfolding place_column_up lv ..
    moreover have "place_at (\<lambda>j. (i, j)) (line_values ?line) 0 = zip ?cs (map Some (line_values ?line))"
      using len by (intro place_at_zip) (simp_all add: cs)
    ultimately have "fst (fold (place_in_column i 1) ?row (?g1, 0)) = line_pass ?cs (grid b)"
      by (simp add: line_pass_def)
    then show ?thesis
      using sc by (simp add: swipe_line_def 3 swipe_up_column_def indices_def scan_column flip: cs)
  next
    case 4
    have cs: "?cs = map (\<lambda>y. (i, y)) (rev [0..<?n])" by (simp add: line_cells_def 4)
    have "fst (fold (place_in_column i (- 1)) ?row (?g1, - 1 - int 0)) =
          set_cells (place_at (\<lambda>j. (i, ?n - 1 - j)) (line_values ?line) 0) ?g1"
      using place_column_down[OF d1, of 0 ?row i] len lv by simp
    moreover have "place_at (\<lambda>j. (i, ?n - 1 - j)) (line_values ?line) 0 = zip ?cs (map Some (line_values ?line))"
      using len by (intro place_at_zip) (simp_all add: cs rev_nth)
    ultimately have "fst (fold (place_in_column i (- 1)) ?row (?g1, - 1)) = line_pass ?cs (grid b)"
      by (simp add: line_pass_def)
    then show ?thesis
      using sc by (simp add: swipe_line_def 4 swipe_down_column_def indices_def scan_column flip: cs)
  qed
qed

subsection \<open>The whole swipe\<close>

lemma lines_done_frame: "lines_done d n k b b' \<Longrightarrow> b' = b\<lparr>grid := grid b', score := score b'\<rparr>"
  unfolding lines_done_def by blast

lemma lines_done_dims: "lines_done d n k b b' \<Longrightarrow> dims n (grid b')"
  unfolding lines_done_def by blast

lemma lines_done_score:
  "lines_done d n k b b' \<Longrightarrow>
   score b' = score b + (\<Sum>i\<leftarrow>[0..<k]. line_gain (map (cell_at (grid b)) (line_cells d n i)))"
  unfolding lines_done_def by blast

lemma lines_done_line:
  "lines_done d n k b b' \<Longrightarrow> i < k \<Longrightarrow>
   map (cell_at (grid b')) (line_cells d n i) = line_out n (map (cell_at (grid b)) (line_cells d n i))"
  unfolding lines_done_def by blast

lemma lines_done_other:
  "lines_done d n k b b' \<Longrightarrow> in_range n c \<Longrightarrow> (\<And>i. i < k \<Longrightarrow> c \<notin> set (line_cells d n i)) \<Longrightarrow>
   cell_at (grid b') c = cell_at (grid b) c"
  unfolding lines_done_def by blast

lemma lines_done_fold:
  assumes d: "d \<in> set directions" and wf: "wf_board b" and n: "n = nat (board_size b)"
  shows "k \<le> n \<Longrightarrow> lines_done d n k b (fold (swipe_line d) [0..<k] b)"
proof (induction k)
  case 0
  then show ?case using wf n by (simp add: lines_done_def wf_board_def)
next
  case (Suc k)
  let ?b1 = "fold (swipe_line d) [0..<k] b"
  let ?cs = "line_cells d n k"
  have k: "k < n" using Suc.prems by simp
  have IH: "lines_done d n k b ?b1" using Suc by simp
  have fr1: "?b1 = b\<lparr>grid := grid ?b1, score := score ?b1\<rparr>" using IH by (rule lines_done_frame)
  have "board_size ?b1 = board_size (b\<lparr>grid := grid ?b1, score := score ?b1\<rparr>)" using fr1 by simp
  then have size1: "board_size ?b1 = board_size b" by simp
  have dm1: "dims n (grid ?b1)" using IH by (rule lines_done_dims)
  have wf1: "wf_board ?b1" using dm1 size1 n by (simp add: wf_board_def)
  have rng: "list_all (in_range n) ?cs" using k by (rule in_range_line_cells)
  have line_k: "map (cell_at (grid ?b1)) ?cs = map (cell_at (grid b)) ?cs"
  proof (rule map_cong[OF refl])
    fix c assume c: "c \<in> set ?cs"
    then have "in_range n c" using rng by (simp add: list_all_iff)
    moreover have "c \<notin> set (line_cells d n i)" if "i < k" for i
      using c that line_cells_disjoint[of k i c d n] by auto
    ultimately show "cell_at (grid ?b1) c = cell_at (grid b) c"
      using IH by (intro lines_done_other)
  qed
  let ?b2 = "swipe_line d k ?b1"
  have step: "?b2 = ?b1\<lparr>grid := line_pass ?cs (grid ?b1),
                          score := score ?b1 + line_gain (map (cell_at (grid b)) ?cs)\<rparr>"
  proof -
    have nk: "nat (board_size ?b1) = n" using size1 n by simp
    have klt: "k < nat (board_size ?b1)" using k nk by simp
    show ?thesis using swipe_line_eq[OF d wf1 klt] unfolding nk line_k .
  qed
  have g2: "grid ?b2 = line_pass ?cs (grid ?b1)" and s2: "score ?b2 = score ?b1 + line_gain (map (cell_at (grid b)) ?cs)"
    by (simp_all add: step)
  have f2: "?b2 = b\<lparr>grid := grid ?b2, score := score ?b2\<rparr>"
  proof -
    have "?b2 = (b\<lparr>grid := grid ?b1, score := score ?b1\<rparr>)\<lparr>grid := line_pass ?cs (grid ?b1),
                          score := score ?b1 + line_gain (map (cell_at (grid b)) ?cs)\<rparr>"
      using step fr1 by simp
    then show ?thesis by (simp add: g2 s2)
  qed
  have dm2: "dims n (grid ?b2)" using dm1 by (simp add: g2 dims_line_pass)
  have sum2: "score ?b2 = score b + (\<Sum>i\<leftarrow>[0..<Suc k]. line_gain (map (cell_at (grid b)) (line_cells d n i)))"
    using lines_done_score[OF IH] by (simp add: s2)
  have lines2: "map (cell_at (grid ?b2)) (line_cells d n i) =
                line_out n (map (cell_at (grid b)) (line_cells d n i))" if i: "i < Suc k" for i
  proof (cases "i = k")
    case True
    show ?thesis
      unfolding True g2
      using line_pass_line[OF dm1 rng distinct_line_cells] line_k by simp
  next
    case False
    then have ik: "i < k" using i by simp
    have "map (cell_at (grid ?b2)) (line_cells d n i) = map (cell_at (grid ?b1)) (line_cells d n i)"
    proof (rule map_cong[OF refl])
      fix c assume c: "c \<in> set (line_cells d n i)"
      have "in_range n c"
        using c in_range_line_cells[of i n d] ik k by (simp add: list_all_iff)
      moreover have "c \<notin> set ?cs" using c False line_cells_disjoint[of i k c d n] by simp
      ultimately show "cell_at (grid ?b2) c = cell_at (grid ?b1) c"
        unfolding g2 using line_pass_other[OF dm1 rng distinct_line_cells] by simp
    qed
    then show ?thesis using lines_done_line[OF IH ik] by simp
  qed
  have other2: "cell_at (grid ?b2) c = cell_at (grid b) c"
    if "in_range n c" "\<forall>i<Suc k. c \<notin> set (line_cells d n i)" for c
  proof -
    have "cell_at (grid ?b2) c = cell_at (grid ?b1) c"
      unfolding g2 using line_pass_other[OF dm1 rng distinct_line_cells that(1)] that(2) by simp
    moreover have "cell_at (grid ?b1) c = cell_at (grid b) c"
      using IH that by (intro lines_done_other) auto
    ultimately show ?thesis by simp
  qed
  have "fold (swipe_line d) [0..<Suc k] b = ?b2" by simp
  then show ?case
    unfolding lines_done_def using f2 dm2 sum2 lines2 other2 by (simp del: upt_Suc)
qed

lemma swipe_done:
  assumes "d \<in> set directions" "wf_board b"
  shows "lines_done d (nat (board_size b)) (nat (board_size b)) b (swipe d b)"
  using lines_done_fold[OF assms refl, of "nat (board_size b)"] by (simp add: swipe_fold indices_def)

lemma swipe_frame:
  assumes "d \<in> set directions" "wf_board b"
  shows "swipe d b = b\<lparr>grid := grid (swipe d b), score := score (swipe d b)\<rparr>"
  using swipe_done[OF assms] by (rule lines_done_frame)

lemma swipe_board_size:
  assumes "d \<in> set directions" "wf_board b"
  shows "board_size (swipe d b) = board_size b"
proof -
  have "board_size (swipe d b) = board_size (b\<lparr>grid := grid (swipe d b), score := score (swipe d b)\<rparr>)"
    using swipe_frame[OF assms] by simp
  then show ?thesis by simp
qed

lemma swipe_wf:
  assumes "d \<in> set directions" "wf_board b"
  shows "wf_board (swipe d b)"
  using lines_done_dims[OF swipe_done[OF assms]] swipe_board_size[OF assms] by (simp add: wf_board_def)

lemma swipe_line:
  assumes "d \<in> set directions" "wf_board b" "i < nat (board_size b)"
  shows "map (cell_at (grid (swipe d b))) (line_cells d (nat (board_size b)) i) =
         line_out (nat (board_size b)) (map (cell_at (grid b)) (line_cells d (nat (board_size b)) i))"
  using lines_done_line[OF swipe_done[OF assms(1,2)] assms(3)] .

lemma swipe_score:
  assumes "d \<in> set directions" "wf_board b"
  shows "score (swipe d b) = score b +
           (\<Sum>i\<leftarrow>[0..<nat (board_size b)]. line_gain (map (cell_at (grid b)) (line_cells d (nat (board_size b)) i)))"
  using lines_done_score[OF swipe_done[OF assms]] .

lemma grid_ext_lines:
  assumes "dims n g" "dims n g'"
    and "\<And>i. i < n \<Longrightarrow> map (cell_at g) (line_cells d n i) = map (cell_at g') (line_cells d n i)"
  shows "g = g'"
proof (rule grid_ext[OF assms(1,2)])
  fix x y assume "x < n" "y < n"
  then have "in_range n (x, y)" by (simp add: in_range_def)
  then obtain i where i: "i < n" "(x, y) \<in> set (line_cells d n i)"
    using line_cells_cover by blast
  have "cell_at g (x, y) = cell_at g' (x, y)"
    using assms(3)[OF i(1)] i(2) by (simp add: map_eq_conv)
  then show "cell g x y = cell g' x y" by (simp add: cell_at_def)
qed

subsection \<open>Empty cells\<close>

lemma set_get_empty_tiles:
  "set (get_empty_tiles b) =
     {(x, y). x < nat (board_size b) \<and> y < nat (board_size b) \<and> cell (grid b) x y = None}"
  by (auto simp: get_empty_tiles_def indices_def split: if_splits)

lemma get_empty_tiles_Nil:
  "get_empty_tiles b = [] \<longleftrightarrow>
     (\<forall>x < nat (board_size b). \<forall>y < nat (board_size b). cell (grid b) x y \<noteq> None)"
proof -
  have "get_empty_tiles b = [] \<longleftrightarrow> set (get_empty_tiles b) = {}" by simp
  then show ?thesis unfolding set_get_empty_tiles by auto
qed

lemma sum_list_zero: "(\<And>x. x \<in> set xs \<Longrightarrow> f x = (0::int)) \<Longrightarrow> sum_list (map f xs) = 0"
  by (induction xs) simp_all

text \<open>A swipe that leaves the grid as it was adds nothing to the score.\<close>

lemma swipe_unchanged_score:
  assumes "d \<in> set directions" "wf_board b" "grid (swipe d b) = grid b"
  shows "score (swipe d b) = score b"
proof -
  let ?n = "nat (board_size b)"
  have "line_gain (map (cell_at (grid b)) (line_cells d ?n i)) = 0" if "i < ?n" for i
    using swipe_line[OF assms(1,2) that] assms(3) by (intro line_unchanged_gain[of ?n]) simp
  then have "(\<Sum>i\<leftarrow>[0..<?n]. line_gain (map (cell_at (grid b)) (line_cells d ?n i))) = 0"
    by (intro sum_list_zero) simp
  then show ?thesis using swipe_score[OF assms(1,2)] by simp
qed

text \<open>A swipe that leaves no empty cell has left the grid as it was.\<close>

lemma swipe_full_unchanged:
  assumes "d \<in> set directions" "wf_board b" "get_empty_tiles (swipe d b) = []"
  shows "grid (swipe d b) = grid b"
proof -
  let ?n = "nat (board_size b)"
  have dm: "dims ?n (grid b)" using assms(2) by (simp add: wf_board_def)
  have dm': "dims ?n (grid (swipe d b))"
    using swipe_wf[OF assms(1,2)] swipe_board_size[OF assms(1,2)] by (simp add: wf_board_def)
  have full: "cell (grid (swipe d b)) x y \<noteq> None" if "x < ?n" "y < ?n" for x y
    using assms(3) that swipe_board_size[OF assms(1,2)] by (simp add: get_empty_tiles_Nil)
  show ?thesis
  proof (rule grid_ext_lines[OF dm' dm])
    fix i assume i: "i < ?n"
    let ?line = "map (cell_at (grid b)) (line_cells d ?n i)"
    have out: "map (cell_at (grid (swipe d b))) (line_cells d ?n i) = line_out ?n ?line"
      using swipe_line[OF assms(1,2) i] .
    have "None \<notin> set (map (cell_at (grid (swipe d b))) (line_cells d ?n i))"
    proof
      assume "None \<in> set (map (cell_at (grid (swipe d b))) (line_cells d ?n i))"
      then obtain c where c: "c \<in> set (line_cells d ?n i)" "cell_at (grid (swipe d b)) c = None"
        by (auto simp: image_iff)
      have "in_range ?n c" using c(1) in_range_line_cells[OF i, of d] by (simp add: list_all_iff)
      then show False using full[of "fst c" "snd c"] c(2) by (simp add: in_range_def cell_at_def)
    qed
    then have "line_out ?n ?line = ?line"
      unfolding out by (intro line_full_unchanged) simp_all
    then show "map (cell_at (grid (swipe d b))) (line_cells d ?n i) = ?line"
      using out by simp
  qed
qed

subsection \<open>Sums of lines\<close>

lemma sum_tile_value: "sum_list (map tile_value line) = sum_list (tiles_of line)"
proof (induction line)
  case Nil
  then show ?case by simp
next
  case (Cons c line)
  then show ?case by (cases c) (simp_all add: tile_value_def)
qed

lemma line_sum_rows:
  "d = ''l'' \<or> d = ''r'' \<Longrightarrow>
   sum_list (map tile_value (map (cell_at g) (line_cells d (length g) i))) = row_sum g i"
proof -
  assume d: "d = ''l'' \<or> d = ''r''"
  have "sum_list (map tile_value (map (cell_at g) (map (\<lambda>x. (x, i)) (rev [0..<length g])))) =
        sum_list (rev (map tile_value (map (cell_at g) (map (\<lambda>x. (x, i)) [0..<length g]))))"
    by (simp only: rev_map)
  then show ?thesis
    using d by (auto simp: line_cells_def row_sum_def cell_at_def o_def)
qed

lemma line_sum_columns:
  "d = ''u'' \<or> d = ''d'' \<Longrightarrow>
   sum_list (map tile_value (map (cell_at g) (line_cells d (length g) i))) = column_sum g i"
proof -
  assume d: "d = ''u'' \<or> d = ''d''"
  have "sum_list (map tile_value (map (cell_at g) (map (\<lambda>y. (i, y)) (rev [0..<length g])))) =
        sum_list (rev (map tile_value (map (cell_at g) (map (\<lambda>y. (i, y)) [0..<length g]))))"
    by (simp only: rev_map)
  then show ?thesis
    using d by (auto simp: line_cells_def column_sum_def cell_at_def o_def)
qed

lemma swipe_line_sum:
  assumes "d \<in> set directions" "wf_board b" "i < nat (board_size b)"
  shows "sum_list (map tile_value (map (cell_at (grid (swipe d b))) (line_cells d (nat (board_size b)) i))) =
         sum_list (map tile_value (map (cell_at (grid b)) (line_cells d (nat (board_size b)) i)))"
  unfolding swipe_line[OF assms] sum_tile_value by (simp add: line_values_sum)

lemma wf_length: "wf_board b \<Longrightarrow> length (grid b) = nat (board_size b)"
  by (simp add: wf_board_def dims_def)

lemma swipe_simps:
  "swipe ''l'' b = swipe_left b" "swipe ''r'' b = swipe_right b"
  "swipe ''u'' b = swipe_up b" "swipe ''d'' b = swipe_down b"
  by (simp_all add: swipe_def)

lemma in_directions [simp]:
  "''l'' \<in> set directions" "''r'' \<in> set directions" "''u'' \<in> set directions" "''d'' \<in> set directions"
  by (simp_all add: directions_def)

subsection \<open>Moves and new tiles\<close>

lemma perform_move_swipe:
  "d \<in> set directions \<Longrightarrow>
   perform_move r d b =
     (if grid (swipe d b) \<noteq> grid b
      then add_tile r ((swipe d b)\<lparr>prev_grid := Some (grid b), undo_available := True\<rparr>)
      else Inr ((swipe d b)\<lparr>grid := grid b\<rparr>))"
  by (auto simp: perform_move_def swipe_def directions_def Let_def)

lemma get_empty_tiles_update [simp]:
  "get_empty_tiles (b\<lparr>prev_grid := p, undo_available := u\<rparr>) = get_empty_tiles b"
  by (simp add: get_empty_tiles_def indices_def)

lemma randint_1_2_cases: "randint_1_2 r * 2 = 2 \<or> randint_1_2 r * 2 = 4"
  by (simp add: randint_1_2_def) presburger

lemma add_tile_result:
  assumes "get_empty_tiles b \<noteq> []"
  shows "\<exists>x y v. (x, y) \<in> set (get_empty_tiles b) \<and> (v = 2 \<or> v = 4) \<and>
                 add_tile r b = Inr (b\<lparr>grid := put (grid b) x y (Some v)\<rparr>)"
proof -
  let ?e = "get_empty_tiles b"
  let ?c = "?e ! (choice_draw r mod length ?e)"
  have "?c \<in> set ?e" using assms by simp
  moreover have "add_tile r b = Inr (b\<lparr>grid := put (grid b) (fst ?c) (snd ?c) (Some (randint_1_2 r * 2))\<rparr>)"
    using assms by (simp add: add_tile_def choice_def Let_def split: prod.splits)
  ultimately show ?thesis using randint_1_2_cases[of r] by (metis prod.collapse)
qed

subsection \<open>Blocks of merged tiles\<close>

lemma filter_nonzero_butlast:
  "row \<noteq> [] \<Longrightarrow> filter (\<lambda>v. v \<noteq> 0) row = filter (\<lambda>v. v \<noteq> 0) (butlast row) @ (if last row \<noteq> (0::int) then [last row] else [])"
  by (induction row rule: rev_induct) simp_all

lemma merge_line_blocks:
  "0 \<notin> set (tiles_of line) \<Longrightarrow>
   \<exists>blocks. concat blocks = tiles_of line \<and> list_all merge_block blocks \<and>
            line_values line = map sum_list blocks \<and>
            line_gain line = sum_list (map block_gain blocks) \<and>
            (last (fst (merge_line line)) = 0 \<or>
             (blocks \<noteq> [] \<and> last blocks = [last (fst (merge_line line))]))"
proof (induction line rule: rev_induct)
  case Nil
  have "concat [] = tiles_of [] \<and> list_all merge_block [] \<and> line_values [] = map sum_list [] \<and>
        line_gain [] = sum_list (map block_gain []) \<and> last (fst (merge_line [])) = 0"
    by (simp add: line_values_def line_gain_def merge_line_def)
  then show ?case by blast
next
  case (snoc c line)
  obtain row sc where s: "merge_line line = (row, sc)" by (cases "merge_line line")
  have ne: "row \<noteq> []" using merge_line_nonempty[of line] s by simp
  from snoc obtain blocks where b:
    "concat blocks = tiles_of line" "list_all merge_block blocks"
    "filter (\<lambda>v. v \<noteq> 0) row = map sum_list blocks"
    "sc = sum_list (map block_gain blocks)"
    "last row = 0 \<or> (blocks \<noteq> [] \<and> last blocks = [last row])"
    by (auto simp: s line_values_def line_gain_def)
  show ?case
  proof (cases c)
    case None
    then show ?thesis
      using b s by (intro exI[of _ blocks]) (simp add: merge_line_snoc line_values_def line_gain_def)
  next
    case (Some t)
    then have t0: "t \<noteq> 0" using snoc.prems by simp
    show ?thesis
    proof (cases "t = last row")
      case True
      then have m: "merge_line (line @ [Some t]) = (butlast row @ [t * 2, 0], sc + t * 2)"
        using s ne by (simp add: merge_line_snoc merge_tile_Some)
      have lb: "blocks \<noteq> []" "last blocks = [t]" using b(5) True t0 by auto
      obtain bs where bl: "blocks = bs @ [[t]]" using lb by (metis append_butlast_last_id)
      have "filter (\<lambda>v. v \<noteq> 0) row = filter (\<lambda>v. v \<noteq> 0) (butlast row) @ [t]"
        using filter_nonzero_butlast[OF ne] True t0 by simp
      then have f: "filter (\<lambda>v. v \<noteq> 0) (butlast row) = map sum_list bs"
        using b(3) by (simp add: bl)
      have c1: "concat (bs @ [[t, t]]) = tiles_of (line @ [Some t])"
        using b(1) by (simp add: bl)
      have c2: "list_all merge_block (bs @ [[t, t]])"
        using b(2) by (simp add: bl)
      have c3: "line_values (line @ [Some t]) = map sum_list (bs @ [[t, t]])"
        using f t0 by (simp add: line_values_def m)
      have c4: "line_gain (line @ [Some t]) = sum_list (map block_gain (bs @ [[t, t]]))"
        using b(4) by (simp add: line_gain_def m block_gain_def bl)
      have c5: "last (fst (merge_line (line @ [Some t]))) = 0" by (simp add: m)
      show ?thesis unfolding Some using c1 c2 c3 c4 c5 by blast
    next
      case False
      then have m: "merge_line (line @ [Some t]) = (row @ [t], sc)"
        using s ne by (simp add: merge_line_snoc merge_tile_Some)
      have c1: "concat (blocks @ [[t]]) = tiles_of (line @ [Some t])" using b(1) by simp
      have c2: "list_all merge_block (blocks @ [[t]])" using b(2) by simp
      have c3: "line_values (line @ [Some t]) = map sum_list (blocks @ [[t]])"
        using b(3) t0 by (simp add: line_values_def m)
      have c4: "line_gain (line @ [Some t]) = sum_list (map block_gain (blocks @ [[t]]))"
        using b(4) by (simp add: line_gain_def m block_gain_def)
      have c5: "blocks @ [[t]] \<noteq> [] \<and> last (blocks @ [[t]]) = [last (fst (merge_line (line @ [Some t])))]"
        by (simp add: m)
      show ?thesis unfolding Some using c1 c2 c3 c4 c5 by blast
    qed
  qed
qed

lemma merge_line_values_from:
  "v \<in> set (fst (merge_line line)) \<Longrightarrow>
   v = 0 \<or> v \<in> set (tiles_of line) \<or> (\<exists>t\<in>set (tiles_of line). v = t * 2)"
proof (induction line arbitrary: v rule: rev_induct)
  case Nil
  then show ?case by (simp add: merge_line_def)
next
  case (snoc c line)
  obtain row sc where s: "merge_line line = (row, sc)" by (cases "merge_line line")
  have ne: "row \<noteq> []" using merge_line_nonempty[of line] s by simp
  have IH: "u = 0 \<or> u \<in> set (tiles_of line) \<or> (\<exists>t\<in>set (tiles_of line). u = t * 2)" if "u \<in> set row" for u
    using snoc.IH[of u] that s by simp
  show ?case
  proof (cases c)
    case None
    then show ?thesis using snoc.prems IH[of v] s by (simp add: merge_line_snoc)
  next
    case (Some t)
    show ?thesis
    proof (cases "t = last row")
      case True
      then have m: "merge_line (line @ [Some t]) = (butlast row @ [t * 2, 0], sc + t * 2)"
        using s ne by (simp add: merge_line_snoc merge_tile_Some)
      have "v \<in> set (butlast row) \<or> v = t * 2 \<or> v = 0"
        using snoc.prems by (auto simp: Some m)
      then show ?thesis using IH[of v] Some by (auto dest: in_set_butlastD)
    next
      case False
      then have m: "merge_line (line @ [Some t]) = (row @ [t], sc)"
        using s ne by (simp add: merge_line_snoc merge_tile_Some)
      have "v \<in> set row \<or> v = t" using snoc.prems by (auto simp: Some m)
      then show ?thesis using IH[of v] Some by auto
    qed
  qed
qed

subsection \<open>Outcomes of the random source\<close>

lemma add_tile_Inr:
  "add_tile r b = Inr b' \<Longrightarrow> \<exists>x y v. b' = b\<lparr>grid := put (grid b) x y (Some v)\<rparr>"
  by (auto simp: add_tile_def Let_def split: sum.splits prod.splits)

lemma choice_any:
  assumes "e \<in> set xs"
  shows "\<exists>j. choice \<lparr>randint_draw = k, choice_draw = j\<rparr> xs = Inr e"
proof -
  obtain j where j: "j < length xs" "xs ! j = e" using assms by (auto simp: in_set_conv_nth)
  then have "choice \<lparr>randint_draw = k, choice_draw = j\<rparr> xs = Inr e"
    by (auto simp: choice_def)
  then show ?thesis by blast
qed

subsection \<open>Game over on boards of size two or more\<close>

text \<open>On a board of size two or more, \<open>is_game_over\<close> never answers that the game is over.\<close>

lemma is_game_over_never:
  assumes "2 \<le> board_size b"
  shows "is_game_over b = Inr False"
proof (cases "get_empty_tiles b = []")
  case False
  then show ?thesis by (simp add: is_game_over_def)
next
  case True
  define n where "n = nat (board_size b) - 2"
  have n: "nat (board_size b) = Suc (Suc n)" using assms by (simp add: n_def)
  have "\<exists>rest. indices b = 0 # 1 # rest"
    by (simp add: indices_def n upt_conv_Cons del: upt_Suc)
  then obtain rest where rest: "indices b = 0 # 1 # rest" by blast
  obtain cs where cs: "concat (map (\<lambda>y. map (\<lambda>x. (x, y)) (indices b)) (indices b)) = (0, 0) # (1, 0) # cs"
    by (simp add: rest)
  have a0: "\<exists>adj. get_adjacent_tiles b 0 0 = Inr adj" using assms by (simp add: get_adjacent_tiles_def)
  have a1: "\<exists>adj. get_adjacent_tiles b 1 0 = Inr adj \<and> cell (grid b) 1 0 \<in> set adj"
    using assms by (simp add: get_adjacent_tiles_def)
  show ?thesis
    using True a0 a1 by (auto simp: is_game_over_def cs)
qed

subsection \<open>Lines of the swiped board\<close>

lemma line_of_swipe:
  assumes "d \<in> set directions" "wf_board b" "i < nat (board_size b)"
  shows "line_of d i (grid (swipe d b)) = line_out (nat (board_size b)) (line_of d i (grid b))"
proof -
  have "length (grid (swipe d b)) = nat (board_size b)"
    using wf_length[OF swipe_wf[OF assms(1,2)]] swipe_board_size[OF assms(1,2)] by simp
  then show ?thesis
    using swipe_line[OF assms] wf_length[OF assms(2)] by (simp add: line_of_def)
qed

lemma swipe_line_score:
  assumes "d \<in> set directions" "wf_board b" "i < nat (board_size b)"
  shows "score (swipe_line d i b) = score b + line_gain (line_of d i (grid b))"
  using swipe_line_eq[OF assms] wf_length[OF assms(2)] by (simp add: line_of_def)

lemma line_gain_no_tiles: "tiles_of line = [] \<Longrightarrow> line_gain line = 0"
  using merge_line_count[of line] by (simp add: line_gain_def)

lemma sum_list_single:
  fixes f :: "nat \<Rightarrow> int"
  assumes "i < n" "\<And>j. j < n \<Longrightarrow> j \<noteq> i \<Longrightarrow> f j = 0"
  shows "(\<Sum>j\<leftarrow>[0..<n]. f j) = f i"
proof -
  have "(\<Sum>j\<leftarrow>[0..<n]. f j) = sum f {0..<n}"
    by (simp add: interv_sum_list_conv_sum_set_nat)
  also have "\<dots> = f i + sum f ({0..<n} - {i})"
    using assms(1) by (intro sum.remove) simp_all
  also have "sum f ({0..<n} - {i}) = 0"
    using assms(2) by (intro sum.neutral) simp
  finally show ?thesis by simp
qed

lemma swipe_score_single:
  assumes "d \<in> set directions" "wf_board b" "i < nat (board_size b)"
    and "\<And>j. j < nat (board_size b) \<Longrightarrow> j \<noteq> i \<Longrightarrow> tiles_of (line_of d j (grid b)) = []"
  shows "score (swipe d b) = score b + line_gain (line_of d i (grid b))"
proof -
  let ?n = "nat (board_size b)"
  have "(\<Sum>j\<leftarrow>[0..<?n]. line_gain (line_of d j (grid b))) = line_gain (line_of d i (grid b))"
    using assms(3,4) by (intro sum_list_single) (simp_all add: line_gain_no_tiles)
  then show ?thesis
    using swipe_score[OF assms(1,2)] wf_length[OF assms(2)] by (simp add: line_of_def)
qed

lemma length_4_list: "length xs = 4 \<Longrightarrow> \<exists>a b c d. xs = [a, b, c, d]"
  by (auto simp: numeral_nat length_Suc_conv)

lemma upt_4: "[0..<4] = [0, 1, 2, 3]"
  by (simp add: upt_rec)

lemma row_line_left:
  "length g = 4 \<Longrightarrow> length (g ! y) = 4 \<Longrightarrow> line_of ''l'' y g = g ! y"
  using length_4_list[of "g ! y"] by (auto simp: line_of_def line_cells_def upt_4 cell_at_def cell_def)

lemma row_line_right:
  "length g = 4 \<Longrightarrow> length (g ! y) = 4 \<Longrightarrow> line_of ''r'' y g = rev (g ! y)"
  using length_4_list[of "g ! y"] by (auto simp: line_of_def line_cells_def upt_4 cell_at_def cell_def)

lemma example_line_right: "line_out 4 [Some 2, Some 2, Some 4, Some 2] = [Some 4, Some 4, Some 2, None]"
  "line_gain [Some 2, Some 2, Some 4, Some 2] = 4"
  by (simp_all add: line_out_def line_values_def line_gain_def merge_line_def merge_tile_def numeral_nat)

lemma example_line_left: "line_out 4 [Some 2, Some 2, Some 2, Some 2] = [Some 4, Some 4, None, None]"
  "line_gain [Some 2, Some 2, Some 2, Some 2] = 8"
  by (simp_all add: line_out_def line_values_def line_gain_def merge_line_def merge_tile_def numeral_nat)

subsection \<open>Valid tiles\<close>

lemma pow2_tile_iff: "pow2_tile v \<longleftrightarrow> (\<exists>k. 1 \<le> k \<and> v = 2 ^ k)"
proof
  assume "pow2_tile v"
  then show "\<exists>k. 1 \<le> k \<and> v = 2 ^ k" by (auto simp: pow2_tile_def)
next
  assume "\<exists>k. 1 \<le> k \<and> v = 2 ^ k"
  then obtain k where k: "1 \<le> k" "v = 2 ^ k" by blast
  have "k < 2 ^ k" by simp
  moreover have "nat v = 2 ^ k" using k(2) by (simp add: nat_power_eq)
  ultimately have le: "k \<le> nat v" by linarith
  show "pow2_tile v"
    unfolding pow2_tile_def
  proof (rule bexI[of _ k])
    show "v = 2 ^ k" by (rule k(2))
    show "k \<in> {1..nat v}" using k(1) le by simp
  qed
qed

lemma pow2_tile_double: "pow2_tile t \<Longrightarrow> pow2_tile (t * 2)"
proof -
  assume "pow2_tile t"
  then obtain k where "1 \<le> k" "t = 2 ^ k" using pow2_tile_iff by blast
  then have "1 \<le> Suc k \<and> t * 2 = 2 ^ Suc k" by simp
  then show ?thesis using pow2_tile_iff by blast
qed

lemma pow2_tile_2_4: "pow2_tile 2" "pow2_tile 4"
proof -
  have "(1::nat) \<le> 1 \<and> (2::int) = 2 ^ 1" by simp
  then show "pow2_tile 2" using pow2_tile_iff by blast
  have "(1::nat) \<le> 2 \<and> (4::int) = 2 ^ 2" by simp
  then show "pow2_tile 4" using pow2_tile_iff by blast
qed

lemma valid_grid_cells:
  assumes "dims n g"
  shows "valid_grid g \<longleftrightarrow> (\<forall>x<n. \<forall>y<n. \<forall>v. cell g x y = Some v \<longrightarrow> pow2_tile v)"
proof
  assume v: "valid_grid g"
  show "\<forall>x<n. \<forall>y<n. \<forall>v. cell g x y = Some v \<longrightarrow> pow2_tile v"
  proof (intro allI impI)
    fix x y t assume xy: "x < n" "y < n" and c: "cell g x y = Some t"
    have "list_all (\<lambda>c. case c of None \<Rightarrow> True | Some v \<Rightarrow> pow2_tile v) (g ! y)"
      using v assms xy(2) by (simp add: valid_grid_def list_all_length dims_def)
    then have "case g ! y ! x of None \<Rightarrow> True | Some v \<Rightarrow> pow2_tile v"
      using dims_nth[OF assms xy(2)] xy(1) by (simp add: list_all_length)
    then show "pow2_tile t" using c by (simp add: cell_def)
  qed
next
  assume a: "\<forall>x<n. \<forall>y<n. \<forall>v. cell g x y = Some v \<longrightarrow> pow2_tile v"
  show "valid_grid g"
    unfolding valid_grid_def list_all_length
  proof (intro allI impI)
    fix y x assume y: "y < length g" and x: "x < length (g ! y)"
    have "y < n" using y assms by (simp add: dims_def)
    moreover have "x < n" using x dims_nth[OF assms \<open>y < n\<close>] by simp
    ultimately show "case g ! y ! x of None \<Rightarrow> True | Some v \<Rightarrow> pow2_tile v"
      using a by (auto simp: cell_def split: option.splits)
  qed
qed

lemma valid_grid_put:
  assumes "dims n g" "valid_grid g" "pow2_tile v" "x < n" "y < n"
  shows "valid_grid (put g x y (Some v))"
  using assms valid_grid_cells[OF dims_put[OF assms(1)], of x y "Some v"] valid_grid_cells[OF assms(1)]
  by (auto simp: cell_put[OF assms(1,4,5)] split: if_splits)

lemma set_tiles_of: "set (tiles_of line) = {t. Some t \<in> set line}"
proof (induction line)
  case Nil
  then show ?case by simp
next
  case (Cons c line)
  then show ?case by (cases c) auto
qed

lemma line_out_Some: "Some v \<in> set (line_out n line) \<Longrightarrow> v \<in> set (line_values line)"
  by (auto simp: line_out_def)

lemma line_values_from:
  assumes "v \<in> set (line_values line)"
  shows "v \<in> set (tiles_of line) \<or> (\<exists>t\<in>set (tiles_of line). v = t * 2)"
  using assms merge_line_values_from[of v line] by (auto simp: line_values_def)

lemma swipe_valid_grid:
  assumes "d \<in> set directions" "wf_board b" "valid_grid (grid b)"
  shows "valid_grid (grid (swipe d b))"
proof -
  let ?n = "nat (board_size b)"
  have dm: "dims ?n (grid b)" using assms(2) by (simp add: wf_board_def)
  have dm': "dims ?n (grid (swipe d b))"
    using swipe_wf[OF assms(1,2)] swipe_board_size[OF assms(1,2)] by (simp add: wf_board_def)
  have old: "pow2_tile t" if "c \<in> set (line_cells d ?n i)" "i < ?n" "cell_at (grid b) c = Some t" for c i t
  proof -
    have "in_range ?n c" using that(1) in_range_line_cells[OF that(2), of d] by (simp add: list_all_iff)
    then show ?thesis
      using assms(3) that(3) valid_grid_cells[OF dm] by (auto simp: in_range_def cell_at_def)
  qed
  show ?thesis
    unfolding valid_grid_cells[OF dm']
  proof (intro allI impI)
    fix x y v assume xy: "x < ?n" "y < ?n" and c: "cell (grid (swipe d b)) x y = Some v"
    have "in_range ?n (x, y)" using xy by (simp add: in_range_def)
    then obtain i where i: "i < ?n" "(x, y) \<in> set (line_cells d ?n i)"
      using line_cells_cover by blast
    let ?line = "map (cell_at (grid b)) (line_cells d ?n i)"
    have "Some v \<in> set (map (cell_at (grid (swipe d b))) (line_cells d ?n i))"
      using i(2) c by (force simp: cell_at_def)
    then have "Some v \<in> set (line_out ?n ?line)"
      using swipe_line[OF assms(1,2) i(1)] by simp
    then have "v \<in> set (tiles_of ?line) \<or> (\<exists>t\<in>set (tiles_of ?line). v = t * 2)"
      using line_out_Some line_values_from by blast
    moreover have "pow2_tile t" if "t \<in> set (tiles_of ?line)" for t
    proof -
      have "Some t \<in> set ?line" using that by (simp add: set_tiles_of)
      then obtain c where "c \<in> set (line_cells d ?n i)" "cell_at (grid b) c = Some t" by auto
      then show ?thesis using old i(1) by blast
    qed
    ultimately show "pow2_tile v" using pow2_tile_double by blast
  qed
qed

subsection \<open>The invariant of reachable boards\<close>

lemma board_inv_init: "init sz = Inr b \<Longrightarrow> board_inv b"
  by (auto simp: init_def board_inv_def wf_board_def dims_def valid_grid_def list_all_iff split: if_splits)

lemma board_inv_add_tile:
  assumes "board_inv b" "add_tile r b = Inr b'"
  shows "board_inv b'"
proof -
  have ne: "get_empty_tiles b \<noteq> []"
    using assms(2) by (auto simp: add_tile_def choice_def Let_def split: if_splits)
  from add_tile_result[OF ne, of r] assms(2) obtain x y v where
    *: "(x, y) \<in> set (get_empty_tiles b)" "v = 2 \<or> v = 4" "b' = b\<lparr>grid := put (grid b) x y (Some v)\<rparr>"
    by auto
  have xy: "x < nat (board_size b)" "y < nat (board_size b)"
    using *(1) by (simp_all add: set_get_empty_tiles)
  have dm: "dims (nat (board_size b)) (grid b)" using assms(1) by (simp add: board_inv_def wf_board_def)
  have "pow2_tile v" using *(2) pow2_tile_2_4 by blast
  then have "valid_grid (put (grid b) x y (Some v))"
    using valid_grid_put[OF dm _ _ xy] assms(1) by (simp add: board_inv_def)
  then show ?thesis
    using assms(1) dims_put[OF dm] by (simp add: * board_inv_def wf_board_def split: option.splits)
qed

lemma board_inv_perform_move:
  assumes "board_inv b" "perform_move r d b = Inr b'"
  shows "board_inv b'"
proof -
  have d: "d \<in> set directions"
    using assms(2) by (auto simp: perform_move_def directions_def split: if_splits)
  have wf: "wf_board b" and vg: "valid_grid (grid b)" using assms(1) by (simp_all add: board_inv_def)
  show ?thesis
  proof (cases "grid (swipe d b) = grid b")
    case True
    have sc: "score (swipe d b) = score b" using swipe_unchanged_score[OF d wf True] .
    have "swipe d b = b\<lparr>grid := grid (swipe d b), score := score (swipe d b)\<rparr>"
      using swipe_frame[OF d wf] .
    then have "swipe d b = b" using sc True by simp
    then have "b' = b" using assms(2) d True by (simp add: perform_move_swipe)
    then show ?thesis using assms(1) by simp
  next
    case False
    let ?b1 = "(swipe d b)\<lparr>prev_grid := Some (grid b), undo_available := True\<rparr>"
    have "board_inv ?b1"
      using swipe_wf[OF d wf] swipe_valid_grid[OF d wf vg] swipe_board_size[OF d wf] wf vg
      by (simp add: board_inv_def wf_board_def)
    moreover have "add_tile r ?b1 = Inr b'" using assms(2) d False by (simp add: perform_move_swipe)
    ultimately show ?thesis by (rule board_inv_add_tile)
  qed
qed

lemma board_inv_undo:
  assumes "board_inv b" "undo b = Inr b'"
  shows "board_inv b'"
  using assms by (auto simp: undo_def board_inv_def wf_board_def split: if_splits option.splits)

lemma reachable_inv: "reachable b \<Longrightarrow> board_inv b"
proof (induction rule: reachable.induct)
  case (reachable_init sz b)
  then show ?case by (rule board_inv_init)
next
  case (reachable_move b r direction b')
  then show ?case using board_inv_perform_move by blast
next
  case (reachable_add b r b')
  then show ?case using board_inv_add_tile by blast
next
  case (reachable_undo b b')
  then show ?case using board_inv_undo by blast
qed

subsection \<open>The sum of the grid\<close>

lemma swipe_sums:
  assumes "wf_board b" "i < nat (board_size b)"
  shows "row_sum (grid (swipe ''l'' b)) i = row_sum (grid b) i"
    and "row_sum (grid (swipe ''r'' b)) i = row_sum (grid b) i"
    and "column_sum (grid (swipe ''u'' b)) i = column_sum (grid b) i"
    and "column_sum (grid (swipe ''d'' b)) i = column_sum (grid b) i"
proof -
  have len: "length (grid (swipe d b)) = nat (board_size b)" if "d \<in> set directions" for d
    using wf_length[OF swipe_wf[OF that assms(1)]] swipe_board_size[OF that assms(1)] by simp
  have len0: "length (grid b) = nat (board_size b)" using assms(1) by (rule wf_length)
  show "row_sum (grid (swipe ''l'' b)) i = row_sum (grid b) i"
    using swipe_line_sum[OF _ assms, of "''l''"]
      line_sum_rows[of "''l''" "grid (swipe ''l'' b)" i] line_sum_rows[of "''l''" "grid b" i]
    by (simp add: len len0)
  show "row_sum (grid (swipe ''r'' b)) i = row_sum (grid b) i"
    using swipe_line_sum[OF _ assms, of "''r''"]
      line_sum_rows[of "''r''" "grid (swipe ''r'' b)" i] line_sum_rows[of "''r''" "grid b" i]
    by (simp add: len len0)
  show "column_sum (grid (swipe ''u'' b)) i = column_sum (grid b) i"
    using swipe_line_sum[OF _ assms, of "''u''"]
      line_sum_columns[of "''u''" "grid (swipe ''u'' b)" i] line_sum_columns[of "''u''" "grid b" i]
    by (simp add: len len0)
  show "column_sum (grid (swipe ''d'' b)) i = column_sum (grid b) i"
    using swipe_line_sum[OF _ assms, of "''d''"]
      line_sum_columns[of "''d''" "grid (swipe ''d'' b)" i] line_sum_columns[of "''d''" "grid b" i]
    by (simp add: len len0)
qed

lemma grid_sum_columns: "grid_sum g = (\<Sum>x\<leftarrow>[0..<length g]. column_sum g x)"
proof -
  let ?n = "length g"
  have "grid_sum g = (\<Sum>y\<in>{0..<?n}. \<Sum>x\<in>{0..<?n}. tile_value (cell g x y))"
    by (simp add: grid_sum_def row_sum_def interv_sum_list_conv_sum_set_nat)
  also have "\<dots> = (\<Sum>x\<in>{0..<?n}. \<Sum>y\<in>{0..<?n}. tile_value (cell g x y))"
    by (rule sum.swap)
  also have "\<dots> = (\<Sum>x\<leftarrow>[0..<?n]. column_sum g x)"
    by (simp add: column_sum_def interv_sum_list_conv_sum_set_nat)
  finally show ?thesis .
qed

lemma sum_list_cong_upt:
  "(\<And>j. j < n \<Longrightarrow> f j = g j) \<Longrightarrow> (\<Sum>j\<leftarrow>[0..<n]. f j) = (\<Sum>j\<leftarrow>[0..<n]. (g j :: int))"
  by (rule arg_cong[where f = sum_list]) (rule map_cong, simp_all)

lemma swipe_grid_sum:
  assumes "d \<in> set directions" "wf_board b"
  shows "grid_sum (grid (swipe d b)) = grid_sum (grid b)"
proof -
  have len: "length (grid (swipe d b)) = nat (board_size b)"
    using wf_length[OF swipe_wf[OF assms]] swipe_board_size[OF assms] by simp
  have len0: "length (grid b) = nat (board_size b)" using assms(2) by (rule wf_length)
  consider "d = ''l''" | "d = ''r''" | "d = ''u''" | "d = ''d''"
    using assms(1) by (auto simp: directions_def)
  then show ?thesis
  proof cases
    case 1
    show ?thesis
      unfolding grid_sum_def len len0 using swipe_sums(1)[OF assms(2)]
      by (intro sum_list_cong_upt) (simp add: 1)
  next
    case 2
    show ?thesis
      unfolding grid_sum_def len len0 using swipe_sums(2)[OF assms(2)]
      by (intro sum_list_cong_upt) (simp add: 2)
  next
    case 3
    show ?thesis
      unfolding grid_sum_columns len len0 using swipe_sums(3)[OF assms(2)]
      by (intro sum_list_cong_upt) (simp add: 3)
  next
    case 4
    show ?thesis
      unfolding grid_sum_columns len len0 using swipe_sums(4)[OF assms(2)]
      by (intro sum_list_cong_upt) (simp add: 4)
  qed
qed

lemma sum_list_add_single:
  fixes f :: "nat \<Rightarrow> int"
  assumes "i < n"
  shows "(\<Sum>j\<leftarrow>[0..<n]. f j + (if j = i then v else 0)) = (\<Sum>j\<leftarrow>[0..<n]. f j) + v"
proof -
  have "(\<Sum>j\<leftarrow>[0..<n]. f j + (if j = i then v else 0)) =
        (\<Sum>j\<leftarrow>[0..<n]. f j) + (\<Sum>j\<leftarrow>[0..<n]. if j = i then v else 0)"
    by (simp add: sum_list_addf)
  moreover have "(\<Sum>j\<leftarrow>[0..<n]. if j = i then v else 0) = (if i = i then v else 0)"
    using assms by (intro sum_list_single) simp_all
  ultimately show ?thesis by simp
qed

lemma grid_sum_put:
  assumes "dims n g" "x < n" "y < n" "cell g x y = None"
  shows "grid_sum (put g x y (Some v)) = grid_sum g + v"
proof -
  have len: "length g = n" "length (put g x y (Some v)) = n"
    using assms(1) dims_put[OF assms(1), of x y "Some v"] by (simp_all add: dims_def)
  have row: "row_sum (put g x y (Some v)) j = row_sum g j + (if j = y then v else 0)" if j: "j < n" for j
  proof -
    have "row_sum (put g x y (Some v)) j =
          (\<Sum>k\<leftarrow>[0..<n]. tile_value (cell g k j) + (if k = x then (if j = y then v else 0) else 0))"
      unfolding row_sum_def len
      using assms(4) by (intro sum_list_cong_upt) (simp add: cell_put[OF assms(1-3) _ j] tile_value_def)
    also have "\<dots> = row_sum g j + (if j = y then v else 0)"
      unfolding row_sum_def len using assms(2) by (rule sum_list_add_single)
    finally show ?thesis .
  qed
  have "grid_sum (put g x y (Some v)) = (\<Sum>j\<leftarrow>[0..<n]. row_sum g j + (if j = y then v else 0))"
    unfolding grid_sum_def len using row by (intro sum_list_cong_upt) simp
  also have "\<dots> = grid_sum g + v"
    unfolding grid_sum_def len using assms(3) by (rule sum_list_add_single)
  finally show ?thesis .
qed

lemma perform_move_same_grid:
  assumes "wf_board b" "d \<in> set directions" "perform_move r d b = Inr b'" "grid b' = grid b"
  shows "grid (swipe d b) = grid b"
proof (rule ccontr)
  assume ch: "grid (swipe d b) \<noteq> grid b"
  let ?b1 = "(swipe d b)\<lparr>prev_grid := Some (grid b), undo_available := True\<rparr>"
  have ne: "get_empty_tiles ?b1 \<noteq> []"
    using swipe_full_unchanged[OF assms(2,1)] ch by auto
  from add_tile_result[OF ne, of r] obtain x y v where
    *: "(x, y) \<in> set (get_empty_tiles ?b1)" "v = 2 \<or> v = 4"
    "add_tile r ?b1 = Inr (?b1\<lparr>grid := put (grid ?b1) x y (Some v)\<rparr>)" by blast
  have "b' = ?b1\<lparr>grid := put (grid ?b1) x y (Some v)\<rparr>"
    using *(3) assms(2,3) ch by (simp add: perform_move_swipe)
  then have g': "grid b' = put (grid (swipe d b)) x y (Some v)" by simp
  have xy: "x < nat (board_size b)" "y < nat (board_size b)" "cell (grid (swipe d b)) x y = None"
    using *(1) swipe_board_size[OF assms(2,1)] by (simp_all add: set_get_empty_tiles)
  have dm: "dims (nat (board_size b)) (grid (swipe d b))"
    using swipe_wf[OF assms(2,1)] swipe_board_size[OF assms(2,1)] by (simp add: wf_board_def)
  have "grid_sum (grid b') = grid_sum (grid (swipe d b)) + v"
    unfolding g' using dm xy by (rule grid_sum_put)
  then have "grid_sum (grid b') = grid_sum (grid b) + v"
    using swipe_grid_sum[OF assms(2,1)] by simp
  then show False using assms(4) *(2) by auto
qed

subsection \<open>Reachable boards\<close>

lemma reachable_wf: "reachable b \<Longrightarrow> wf_board b"
  using reachable_inv[of b] by (simp add: board_inv_def)

text \<open>On a reachable board neither \<open>undo\<close> nor a move in one of the four directions raises.\<close>

lemma reachable_undo_returns: "reachable b \<Longrightarrow> \<exists>b'. undo b = Inr b'"
  using reachable_inv[of b] by (auto simp: board_inv_def undo_def split: option.splits)

lemma reachable_move_returns:
  assumes "reachable b" "d \<in> set directions"
  shows "\<exists>b'. perform_move r d b = Inr b'"
proof (cases "grid (swipe d b) = grid b")
  case True
  then show ?thesis using assms(2) by (simp add: perform_move_swipe)
next
  case False
  let ?b1 = "(swipe d b)\<lparr>prev_grid := Some (grid b), undo_available := True\<rparr>"
  have "get_empty_tiles (swipe d b) \<noteq> []"
    using swipe_full_unchanged[OF assms(2) reachable_wf[OF assms(1)]] False by blast
  then have "get_empty_tiles ?b1 \<noteq> []" by simp
  from add_tile_result[OF this, of r] show ?thesis
    using False assms(2) by (auto simp: perform_move_swipe)
qed

lemma init_negative: "sz < 0 \<Longrightarrow> \<exists>b. init sz = Inr b \<and> grid b = []"
  by (simp add: init_def)

text \<open>The example game is a run of the engine.\<close>

lemma game_steps:
  "init 2 = Inr game_0" "add_tile draw_0 game_0 = Inr game_1" "add_tile draw_0 game_1 = Inr game_2"
  "perform_move draw_0 ''l'' game_2 = Inr game_3"
proof -
  show "init 2 = Inr game_0" by (simp add: init_def game_0_def numeral_nat)
  show "add_tile draw_0 game_0 = Inr game_1" by code_simp
  show "add_tile draw_0 game_1 = Inr game_2" by code_simp
  show "perform_move draw_0 ''l'' game_2 = Inr game_3" by code_simp
qed

lemma game_reachable: "reachable game_2" "reachable game_3"
proof -
  have r0: "reachable game_0" using game_steps(1) by (rule reachable_init)
  have r1: "reachable game_1" using r0 game_steps(2) by (rule reachable_add)
  show r2: "reachable game_2" using r1 game_steps(3) by (rule reachable_add)
  show "reachable game_3" using r2 game_steps(4) by (rule reachable_move)
qed

section \<open>The claims\<close>

text \<open>
  The theorems about boards assume \<open>wf_board\<close>, which holds of every reachable board, and
  take the direction from \<open>directions\<close>, outside of which \<open>perform_move\<close> fails its
  assertion. Each theorem with a hypothesis is followed by an instance on an example board.
\<close>

subsection \<open>Game over\<close>

text \<open>
  Claim C1: \<open>is_game_over\<close> is true exactly when the grid is full and no two adjacent
  cells hold the same value. The code does not do this: on the full 2 by 2 board
  \<open>board_c\<close>, whose adjacent cells all differ, it answers false, because the neighbour
  below \<open>(x, y)\<close> is read at \<open>(y + 1, y)\<close>, which for \<open>(1, 0)\<close> is the cell itself.
\<close>

theorem is_game_over_full_board:
  "no_moves_left board_c \<and> is_game_over board_c = Inr False"
  by code_simp

subsection \<open>Merging along a line\<close>

text \<open>
  Claim C2: on a well-formed board of size 4 with a row \<open>[2, 4, 2, 2]\<close>, the right swipe
  turns that row into \<open>[empty, 2, 4, 4]\<close>; the round of the swipe for that row adds
  exactly 4 to the score, and so does the whole swipe when the other rows are empty.
\<close>

theorem swipe_right_example:
  assumes "wf_board b" "board_size b = 4" "y < 4" "grid b ! y = [Some 2, Some 4, Some 2, Some 2]"
  shows "grid (swipe_right b) ! y = [None, Some 2, Some 4, Some 4] \<and>
         score (swipe_right_row y b) = score b + 4 \<and>
         ((\<forall>y'<4. y' \<noteq> y \<longrightarrow> grid b ! y' = [None, None, None, None]) \<longrightarrow>
            score (swipe_right b) = score b + 4)"
proof -
  have r: "''r'' \<in> set directions" by simp
  have y: "y < nat (board_size b)" using assms(2,3) by simp
  have len: "length (grid b) = 4" using wf_length[OF assms(1)] assms(2) by simp
  have wf': "wf_board (swipe ''r'' b)" using swipe_wf[OF r assms(1)] .
  have len': "length (grid (swipe ''r'' b)) = 4"
    using wf_length[OF wf'] swipe_board_size[OF r assms(1)] assms(2) by simp
  have rowlen': "length (grid (swipe ''r'' b) ! y) = 4"
    using wf' swipe_board_size[OF r assms(1)] assms(2,3) by (simp add: wf_board_def dims_nth)
  have line: "line_of ''r'' y (grid b) = [Some 2, Some 2, Some 4, Some 2]"
    using row_line_right[OF len, of y] assms(4) by simp
  have "rev (grid (swipe ''r'' b) ! y) = [Some 4, Some 4, Some 2, None]"
    using line_of_swipe[OF r assms(1) y] row_line_right[OF len' rowlen'] assms(2) by (simp add: line example_line_right)
  then have "rev (rev (grid (swipe ''r'' b) ! y)) = rev [Some 4, Some 4, Some 2, None]" by simp
  then have c1: "grid (swipe_right b) ! y = [None, Some 2, Some 4, Some 4]" by (simp add: swipe_simps)
  have c2: "score (swipe_right_row y b) = score b + 4"
    using swipe_line_score[OF r assms(1) y] by (simp add: line example_line_right swipe_line_def)
  have c3: "score (swipe_right b) = score b + 4"
    if others: "\<forall>y'<4. y' \<noteq> y \<longrightarrow> grid b ! y' = [None, None, None, None]"
  proof -
    have "tiles_of (line_of ''r'' j (grid b)) = []" if "j < nat (board_size b)" "j \<noteq> y" for j
    proof -
      have "grid b ! j = [None, None, None, None]" using others that assms(2) by simp
      then show ?thesis using row_line_right[OF len, of j] by simp
    qed
    then show ?thesis
      using swipe_score_single[OF r assms(1) y] by (simp add: line example_line_right swipe_simps)
  qed
  show ?thesis using c1 c2 c3 by blast
qed

theorem swipe_right_example_witness:
  "wf_board board_r \<and> board_size board_r = 4 \<and> (0::nat) < 4 \<and>
   grid board_r ! 0 = [Some 2, Some 4, Some 2, Some 2] \<and>
   grid (swipe_right board_r) ! 0 = [None, Some 2, Some 4, Some 4] \<and>
   score (swipe_right_row 0 board_r) = score board_r + 4 \<and>
   score (swipe_right board_r) = score board_r + 4"
proof -
  have h1: "wf_board board_r" by (simp add: board_r_def wf_board_def dims_def)
  have h2: "board_size board_r = 4" by (simp add: board_r_def)
  have h3: "(0::nat) < 4" by simp
  have h4: "grid board_r ! 0 = [Some 2, Some 4, Some 2, Some 2]" by (simp add: board_r_def)
  have h5: "\<forall>y'<4. y' \<noteq> 0 \<longrightarrow> grid board_r ! y' = [None, None, None, None]"
    by (auto simp: board_r_def less_Suc_eq numeral_nat)
  show ?thesis using swipe_right_example[OF h1 h2 h3 h4] h1 h2 h3 h4 h5 by blast
qed

text \<open>
  Claim C3: in a swipe no tile takes part in more than one merge. For a line without a
  tile of value 0, read in the direction of the swipe, the tiles split into consecutive
  blocks, each one tile or two equal tiles; the line after the swipe holds the sums of
  the blocks, one per cell, followed by empty cells, and the round of the swipe for the
  line adds the sums of the blocks of two tiles to the score. In particular a row
  \<open>[2, 2, 2, 2]\<close> of a board of size 4 swiped left becomes \<open>[4, 4, empty, empty]\<close> and the
  score grows by 8.
\<close>

theorem single_merge:
  assumes "wf_board b" "i < nat (board_size b)"
  shows "(direction \<in> set directions \<and> 0 \<notin> set (tiles_of (line_of direction i (grid b))) \<longrightarrow>
           (\<exists>blocks. concat blocks = tiles_of (line_of direction i (grid b)) \<and>
                     list_all merge_block blocks \<and>
                     line_of direction i (grid (swipe direction b)) =
                       map Some (map sum_list blocks) @ replicate (nat (board_size b) - length blocks) None \<and>
                     score (swipe_line direction i b) = score b + sum_list (map block_gain blocks))) \<and>
         (board_size b = 4 \<and> grid b ! i = [Some 2, Some 2, Some 2, Some 2] \<longrightarrow>
            grid (swipe_left b) ! i = [Some 4, Some 4, None, None] \<and>
            score (swipe_left_row i b) = score b + 8 \<and>
            ((\<forall>j<4. j \<noteq> i \<longrightarrow> grid b ! j = [None, None, None, None]) \<longrightarrow>
               score (swipe_left b) = score b + 8))"
proof -
  have general: "\<exists>blocks. concat blocks = tiles_of (line_of direction i (grid b)) \<and>
                     list_all merge_block blocks \<and>
                     line_of direction i (grid (swipe direction b)) =
                       map Some (map sum_list blocks) @ replicate (nat (board_size b) - length blocks) None \<and>
                     score (swipe_line direction i b) = score b + sum_list (map block_gain blocks)"
    if d: "direction \<in> set directions" and nz: "0 \<notin> set (tiles_of (line_of direction i (grid b)))"
  proof -
    let ?line = "line_of direction i (grid b)"
    from merge_line_blocks[OF nz] obtain blocks where bl:
      "concat blocks = tiles_of ?line" "list_all merge_block blocks"
      "line_values ?line = map sum_list blocks" "line_gain ?line = sum_list (map block_gain blocks)"
      by blast
    have "line_of direction i (grid (swipe direction b)) =
            map Some (map sum_list blocks) @ replicate (nat (board_size b) - length blocks) None"
      using line_of_swipe[OF d assms] bl(3) by (simp add: line_out_def)
    moreover have "score (swipe_line direction i b) = score b + sum_list (map block_gain blocks)"
      using swipe_line_score[OF d assms] bl(4) by simp
    ultimately show ?thesis using bl(1,2) by blast
  qed
  have example: "grid (swipe_left b) ! i = [Some 4, Some 4, None, None] \<and>
            score (swipe_left_row i b) = score b + 8 \<and>
            ((\<forall>j<4. j \<noteq> i \<longrightarrow> grid b ! j = [None, None, None, None]) \<longrightarrow>
               score (swipe_left b) = score b + 8)"
    if sz: "board_size b = 4" and row: "grid b ! i = [Some 2, Some 2, Some 2, Some 2]"
  proof -
    have l: "''l'' \<in> set directions" by simp
    have len: "length (grid b) = 4" using wf_length[OF assms(1)] sz by simp
    have wf': "wf_board (swipe ''l'' b)" using swipe_wf[OF l assms(1)] .
    have len': "length (grid (swipe ''l'' b)) = 4"
      using wf_length[OF wf'] swipe_board_size[OF l assms(1)] sz by simp
    have rowlen': "length (grid (swipe ''l'' b) ! i) = 4"
      using wf' swipe_board_size[OF l assms(1)] sz assms(2) by (simp add: wf_board_def dims_nth)
    have line: "line_of ''l'' i (grid b) = [Some 2, Some 2, Some 2, Some 2]"
      using row_line_left[OF len, of i] row by simp
    have "grid (swipe ''l'' b) ! i = [Some 4, Some 4, None, None]"
      using line_of_swipe[OF l assms] row_line_left[OF len' rowlen'] sz by (simp add: line example_line_left)
    then have c1: "grid (swipe_left b) ! i = [Some 4, Some 4, None, None]" by (simp add: swipe_simps)
    have c2: "score (swipe_left_row i b) = score b + 8"
      using swipe_line_score[OF l assms] by (simp add: line example_line_left swipe_line_def)
    have c3: "score (swipe_left b) = score b + 8"
      if others: "\<forall>j<4. j \<noteq> i \<longrightarrow> grid b ! j = [None, None, None, None]"
    proof -
      have "tiles_of (line_of ''l'' j (grid b)) = []" if "j < nat (board_size b)" "j \<noteq> i" for j
      proof -
        have "grid b ! j = [None, None, None, None]" using others that sz by simp
        then show ?thesis using row_line_left[OF len, of j] by simp
      qed
      then show ?thesis
        using swipe_score_single[OF l assms] by (simp add: line example_line_left swipe_simps)
    qed
    show ?thesis using c1 c2 c3 by blast
  qed
  show ?thesis using general example by blast
qed

theorem single_merge_witness:
  "wf_board board_l \<and> 1 < nat (board_size board_l) \<and>
   ''l'' \<in> set directions \<and> 0 \<notin> set (tiles_of (line_of ''l'' 1 (grid board_l))) \<and>
   (\<exists>blocks. concat blocks = tiles_of (line_of ''l'' 1 (grid board_l)) \<and>
             list_all merge_block blocks \<and>
             line_of ''l'' 1 (grid (swipe ''l'' board_l)) =
               map Some (map sum_list blocks) @ replicate (nat (board_size board_l) - length blocks) None \<and>
             score (swipe_line ''l'' 1 board_l) = score board_l + sum_list (map block_gain blocks)) \<and>
   board_size board_l = 4 \<and> grid board_l ! 1 = [Some 2, Some 2, Some 2, Some 2] \<and>
   grid (swipe_left board_l) ! 1 = [Some 4, Some 4, None, None] \<and>
   score (swipe_left_row 1 board_l) = score board_l + 8 \<and>
   score (swipe_left board_l) = score board_l + 8"
proof -
  have h1: "wf_board board_l" by (simp add: board_l_def wf_board_def dims_def)
  have h2: "1 < nat (board_size board_l)" by (simp add: board_l_def)
  have h3: "''l'' \<in> set directions" by simp
  have h4: "0 \<notin> set (tiles_of (line_of ''l'' 1 (grid board_l)))" by code_simp
  have h5: "board_size board_l = 4" by (simp add: board_l_def)
  have h6: "grid board_l ! 1 = [Some 2, Some 2, Some 2, Some 2]" by (simp add: board_l_def)
  have h7: "\<forall>j<4. j \<noteq> 1 \<longrightarrow> grid board_l ! j = [None, None, None, None]"
    by (auto simp: board_l_def less_Suc_eq numeral_nat)
  show ?thesis using single_merge[OF h1 h2, of "''l''"] h1 h2 h3 h4 h5 h6 h7 by blast
qed

subsection \<open>Conservation of the line sums\<close>

text \<open>
  Claim C4: on a well-formed board, each swipe leaves the sum of the tile values of every
  line it works on unchanged: of every row for the left and right swipes, of every column
  for the up and down swipes. The swipe is the pass before any tile is added.
\<close>

theorem swipe_line_sum_preserved:
  assumes "wf_board b" "i < nat (board_size b)"
  shows "row_sum (grid (swipe_left b)) i = row_sum (grid b) i \<and>
         row_sum (grid (swipe_right b)) i = row_sum (grid b) i \<and>
         column_sum (grid (swipe_up b)) i = column_sum (grid b) i \<and>
         column_sum (grid (swipe_down b)) i = column_sum (grid b) i"
  using swipe_sums[OF assms] by (simp add: swipe_simps)

theorem swipe_line_sum_preserved_witness:
  "wf_board board_a \<and> 0 < nat (board_size board_a) \<and>
   grid (swipe_left board_a) = [[Some 4, None], [Some 4, None]] \<and> row_sum (grid board_a) 0 = 4 \<and>
   row_sum (grid (swipe_left board_a)) 0 = row_sum (grid board_a) 0 \<and>
   row_sum (grid (swipe_right board_a)) 0 = row_sum (grid board_a) 0 \<and>
   column_sum (grid (swipe_up board_a)) 0 = column_sum (grid board_a) 0 \<and>
   column_sum (grid (swipe_down board_a)) 0 = column_sum (grid board_a) 0"
proof -
  have h1: "wf_board board_a" by (simp add: board_a_def wf_board_def dims_def)
  have h2: "0 < nat (board_size board_a)" by (simp add: board_a_def)
  have e: "grid (swipe_left board_a) = [[Some 4, None], [Some 4, None]]" "row_sum (grid board_a) 0 = 4"
    by code_simp+
  show ?thesis using swipe_line_sum_preserved[OF h1 h2] h1 h2 e by blast
qed

subsection \<open>Undo\<close>

text \<open>
  Claim C5: when undo is available, \<open>undo\<close> puts the stored snapshot in place of the grid
  and makes undo unavailable, and the score stays as it is; when undo is not available,
  \<open>undo\<close> changes nothing, so a second \<open>undo\<close> in a row changes nothing. On a reachable
  board \<open>undo\<close> does not raise. After a move that changed the grid, \<open>undo\<close> gives back the
  grid from before the move with the score of after the move.
\<close>

theorem undo_single_level:
  "(undo_available b \<and> prev_grid b = Some pg \<longrightarrow>
      undo b = Inr (b\<lparr>grid := pg, undo_available := False\<rparr>) \<and>
      score (b\<lparr>grid := pg, undo_available := False\<rparr>) = score b) \<and>
   (\<not> undo_available b \<longrightarrow> undo b = Inr b) \<and>
   (undo b = Inr b' \<longrightarrow> undo b' = Inr b') \<and>
   (reachable b \<longrightarrow> (\<exists>b''. undo b = Inr b'')) \<and>
   (direction \<in> set directions \<and> grid (swipe direction b) \<noteq> grid b \<and>
    perform_move r direction b = Inr b1 \<longrightarrow>
      (\<exists>b2. undo b1 = Inr b2 \<and> grid b2 = grid b \<and> \<not> undo_available b2 \<and>
            score b2 = score b1 \<and> score b1 = score (swipe direction b)))"
proof -
  have p1: "undo_available b \<and> prev_grid b = Some pg \<longrightarrow>
      undo b = Inr (b\<lparr>grid := pg, undo_available := False\<rparr>) \<and>
      score (b\<lparr>grid := pg, undo_available := False\<rparr>) = score b"
    by (simp add: undo_def)
  have p2: "\<not> undo_available b \<longrightarrow> undo b = Inr b"
    by (simp add: undo_def)
  have p3: "undo b = Inr b' \<longrightarrow> undo b' = Inr b'"
    by (auto simp: undo_def split: option.splits if_splits)
  have p4: "reachable b \<longrightarrow> (\<exists>b''. undo b = Inr b'')"
    using reachable_undo_returns by blast
  have p5: "\<exists>b2. undo b1 = Inr b2 \<and> grid b2 = grid b \<and> \<not> undo_available b2 \<and>
            score b2 = score b1 \<and> score b1 = score (swipe direction b)"
    if "direction \<in> set directions" "grid (swipe direction b) \<noteq> grid b"
       "perform_move r direction b = Inr b1"
  proof -
    let ?b0 = "(swipe direction b)\<lparr>prev_grid := Some (grid b), undo_available := True\<rparr>"
    have "add_tile r ?b0 = Inr b1" using that by (simp add: perform_move_swipe)
    then obtain x y v where "b1 = ?b0\<lparr>grid := put (grid ?b0) x y (Some v)\<rparr>"
      using add_tile_Inr by blast
    then show ?thesis by (simp add: undo_def)
  qed
  show ?thesis using p1 p2 p3 p4 p5 by blast
qed

theorem undo_single_level_witness:
  "undo_available game_3 \<and> prev_grid game_3 = Some [[Some 2, Some 2], [None, None]] \<and>
   undo game_3 = Inr (game_3\<lparr>grid := [[Some 2, Some 2], [None, None]], undo_available := False\<rparr>) \<and>
   score (game_3\<lparr>grid := [[Some 2, Some 2], [None, None]], undo_available := False\<rparr>) = score game_3 \<and>
   \<not> undo_available game_2 \<and> undo game_2 = Inr game_2 \<and>
   undo (game_3\<lparr>grid := [[Some 2, Some 2], [None, None]], undo_available := False\<rparr>) =
     Inr (game_3\<lparr>grid := [[Some 2, Some 2], [None, None]], undo_available := False\<rparr>) \<and>
   reachable game_3 \<and> (\<exists>b''. undo game_3 = Inr b'') \<and>
   ''l'' \<in> set directions \<and> grid (swipe ''l'' game_2) \<noteq> grid game_2 \<and>
   perform_move draw_0 ''l'' game_2 = Inr game_3 \<and>
   (\<exists>b2. undo game_3 = Inr b2 \<and> grid b2 = grid game_2 \<and> \<not> undo_available b2 \<and>
         score b2 = score game_3 \<and> score game_3 = score (swipe ''l'' game_2))"
proof -
  let ?pg = "[[Some 2, Some 2], [None, None :: int option]]"
  let ?b' = "game_3\<lparr>grid := ?pg, undo_available := False\<rparr>"
  have h1: "undo_available game_3 \<and> prev_grid game_3 = Some ?pg"
    by (simp add: game_3_def)
  have h2: "\<not> undo_available game_2" by (simp add: game_2_def)
  have h3: "''l'' \<in> set directions" by (simp add: directions_def)
  have h4: "grid (swipe ''l'' game_2) \<noteq> grid game_2" by code_simp
  have h5: "perform_move draw_0 ''l'' game_2 = Inr game_3" by (rule game_steps(4))
  have h6: "reachable game_3" by (rule game_reachable(2))
  have c1: "undo game_3 = Inr ?b' \<and> score ?b' = score game_3"
    using undo_single_level[of game_3 ?pg] h1 by blast
  have c2: "undo game_2 = Inr game_2"
    using undo_single_level[of game_2] h2 by blast
  have c3: "undo ?b' = Inr ?b'"
    using undo_single_level[of game_3 _ ?b'] c1 by blast
  have c4: "\<exists>b''. undo game_3 = Inr b''"
    using undo_single_level[of game_3] h6 by blast
  have c5: "\<exists>b2. undo game_3 = Inr b2 \<and> grid b2 = grid game_2 \<and> \<not> undo_available b2 \<and>
            score b2 = score game_3 \<and> score game_3 = score (swipe ''l'' game_2)"
    using undo_single_level[of game_2 _ _ "''l''" draw_0 game_3] h3 h4 h5 by blast
  show ?thesis using h1 h2 h3 h4 h5 h6 c1 c2 c3 c4 c5 by blast
qed

subsection \<open>Moves\<close>

text \<open>
  Claim C6: on a well-formed board and for each of the four directions, when the swipe
  of \<open>perform_move\<close> leaves the grid as it was before the move, \<open>perform_move\<close> returns
  the board it was given: grid, score, undo flag and previous grid are as before and no
  tile is added. The same holds when the claim is read for the grid that \<open>perform_move\<close>
  returns: if that grid is the grid of before the move, the board returned is the board
  given (a move that changes the grid adds a tile, which changes the sum of the tiles).
\<close>

theorem perform_move_unchanged:
  assumes "wf_board b" "direction \<in> set directions"
  shows "(grid (swipe direction b) = grid b \<longrightarrow> perform_move r direction b = Inr b) \<and>
         (perform_move r direction b = Inr b' \<and> grid b' = grid b \<longrightarrow> b' = b)"
proof -
  have first: "perform_move r direction b = Inr b" if same: "grid (swipe direction b) = grid b"
  proof -
    have sc: "score (swipe direction b) = score b"
      using swipe_unchanged_score[OF assms(2,1) same] .
    have "swipe direction b = b\<lparr>grid := grid (swipe direction b), score := score (swipe direction b)\<rparr>"
      using swipe_frame[OF assms(2,1)] .
    then have "swipe direction b = b" using sc same by simp
    then show ?thesis using assms same by (simp add: perform_move_swipe)
  qed
  have second: "b' = b" if "perform_move r direction b = Inr b'" "grid b' = grid b"
    using first perform_move_same_grid[OF assms that] that(1) by simp
  show ?thesis using first second by blast
qed

theorem perform_move_unchanged_witness:
  "wf_board board_b \<and> ''l'' \<in> set directions \<and> grid (swipe ''l'' board_b) = grid board_b \<and>
   perform_move draw_0 ''l'' board_b = Inr board_b"
proof -
  have h1: "wf_board board_b" by (simp add: board_b_def wf_board_def dims_def)
  have h2: "''l'' \<in> set directions" by (simp add: directions_def)
  have h3: "grid (swipe ''l'' board_b) = grid board_b" by code_simp
  show ?thesis using perform_move_unchanged[OF h1 h2, of draw_0 board_b] h1 h2 h3 by blast
qed



subsection \<open>The new tile\<close>

text \<open>
  Claim C8: on a well-formed board with an empty cell, whatever the random source draws,
  \<open>add_tile\<close> writes 2 or 4 into a cell of the grid that held no tile and leaves every
  other cell as it was. The cells it chooses from are all the empty cells: the list of
  \<open>get_empty_tiles\<close> holds exactly the cells of the grid that hold no tile, and every
  such cell, with either value, is the outcome of some draw.
\<close>

theorem add_tile_empty_cell:
  assumes "wf_board b" "x1 < nat (board_size b)" "y1 < nat (board_size b)" "cell (grid b) x1 y1 = None"
  shows "set (get_empty_tiles b) =
           {(x, y). x < nat (board_size b) \<and> y < nat (board_size b) \<and> cell (grid b) x y = None} \<and>
         (\<exists>x y v. x < nat (board_size b) \<and> y < nat (board_size b) \<and> cell (grid b) x y = None \<and>
           (x, y) \<in> set (get_empty_tiles b) \<and> (v = 2 \<or> v = 4) \<and>
           add_tile r b = Inr (b\<lparr>grid := put (grid b) x y (Some v)\<rparr>) \<and>
           cell (put (grid b) x y (Some v)) x y = Some v \<and>
           (\<forall>x' y'. x' < nat (board_size b) \<and> y' < nat (board_size b) \<and> (x', y') \<noteq> (x, y) \<longrightarrow>
              cell (put (grid b) x y (Some v)) x' y' = cell (grid b) x' y')) \<and>
         (v0 = 2 \<or> v0 = 4 \<longrightarrow>
            (\<exists>r0. add_tile r0 b = Inr (b\<lparr>grid := put (grid b) x1 y1 (Some v0)\<rparr>)))"
proof -
  have e: "(x1, y1) \<in> set (get_empty_tiles b)"
    using assms(2-4) by (simp add: set_get_empty_tiles)
  then have ne: "get_empty_tiles b \<noteq> []" by auto
  from add_tile_result[OF ne, of r] obtain x y v where
    *: "(x, y) \<in> set (get_empty_tiles b)" "v = 2 \<or> v = 4"
    "add_tile r b = Inr (b\<lparr>grid := put (grid b) x y (Some v)\<rparr>)" by blast
  have xy: "x < nat (board_size b)" "y < nat (board_size b)" "cell (grid b) x y = None"
    using *(1) by (simp_all add: set_get_empty_tiles)
  have dm: "dims (nat (board_size b)) (grid b)" using assms(1) by (simp add: wf_board_def)
  have first: "\<exists>x y v. x < nat (board_size b) \<and> y < nat (board_size b) \<and> cell (grid b) x y = None \<and>
           (x, y) \<in> set (get_empty_tiles b) \<and> (v = 2 \<or> v = 4) \<and>
           add_tile r b = Inr (b\<lparr>grid := put (grid b) x y (Some v)\<rparr>) \<and>
           cell (put (grid b) x y (Some v)) x y = Some v \<and>
           (\<forall>x' y'. x' < nat (board_size b) \<and> y' < nat (board_size b) \<and> (x', y') \<noteq> (x, y) \<longrightarrow>
              cell (put (grid b) x y (Some v)) x' y' = cell (grid b) x' y')"
    using * xy cell_put[OF dm xy(1,2)] by (intro exI[of _ x] exI[of _ y] exI[of _ v]) auto
  have second: "\<exists>r0. add_tile r0 b = Inr (b\<lparr>grid := put (grid b) x1 y1 (Some v0)\<rparr>)"
    if v: "v0 = 2 \<or> v0 = 4"
  proof -
    obtain k :: nat where k: "1 + int (k mod 2) = v0 div 2 \<and> (v0 div 2) * 2 = v0"
    proof (cases "v0 = 2")
      case True
      then have "1 + int (0 mod 2) = v0 div 2 \<and> (v0 div 2) * 2 = v0" by simp
      then show ?thesis using that by blast
    next
      case False
      then have "v0 = 4" using v by simp
      then have "1 + int (1 mod 2) = v0 div 2 \<and> (v0 div 2) * 2 = v0" by simp
      then show ?thesis using that by blast
    qed
    obtain j where j: "choice \<lparr>randint_draw = k, choice_draw = j\<rparr> (get_empty_tiles b) = Inr (x1, y1)"
      using choice_any[OF e] by blast
    have "add_tile \<lparr>randint_draw = k, choice_draw = j\<rparr> b = Inr (b\<lparr>grid := put (grid b) x1 y1 (Some v0)\<rparr>)"
      using j k by (simp add: add_tile_def Let_def randint_1_2_def)
    then show ?thesis by blast
  qed
  show ?thesis using set_get_empty_tiles[of b] first second by blast
qed

theorem add_tile_empty_cell_witness:
  "wf_board game_1 \<and> 1 < nat (board_size game_1) \<and> cell (grid game_1) 1 1 = None \<and>
   get_empty_tiles game_1 = [(1, 0), (0, 1), (1, 1)] \<and>
   add_tile draw_0 game_1 = Inr game_2 \<and>
   add_tile \<lparr>randint_draw = 1, choice_draw = 2\<rparr> game_1 =
     Inr (game_1\<lparr>grid := [[Some 2, None], [None, Some 4]]\<rparr>) \<and>
   set (get_empty_tiles game_1) =
     {(x, y). x < nat (board_size game_1) \<and> y < nat (board_size game_1) \<and> cell (grid game_1) x y = None} \<and>
   (\<exists>x y v. x < nat (board_size game_1) \<and> y < nat (board_size game_1) \<and> cell (grid game_1) x y = None \<and>
      (x, y) \<in> set (get_empty_tiles game_1) \<and> (v = 2 \<or> v = 4) \<and>
      add_tile draw_0 game_1 = Inr (game_1\<lparr>grid := put (grid game_1) x y (Some v)\<rparr>) \<and>
      cell (put (grid game_1) x y (Some v)) x y = Some v \<and>
      (\<forall>x' y'. x' < nat (board_size game_1) \<and> y' < nat (board_size game_1) \<and> (x', y') \<noteq> (x, y) \<longrightarrow>
         cell (put (grid game_1) x y (Some v)) x' y' = cell (grid game_1) x' y')) \<and>
   (\<exists>r0. add_tile r0 game_1 = Inr (game_1\<lparr>grid := put (grid game_1) 1 1 (Some 4)\<rparr>))"
proof -
  have h1: "wf_board game_1" by (simp add: game_1_def wf_board_def dims_def)
  have h2: "1 < nat (board_size game_1)" by (simp add: game_1_def)
  have h3: "cell (grid game_1) 1 1 = None" by (simp add: game_1_def cell_def)
  have e1: "get_empty_tiles game_1 = [(1, 0), (0, 1), (1, 1)]" by code_simp
  have e2: "add_tile draw_0 game_1 = Inr game_2" by (rule game_steps(3))
  have e3: "add_tile \<lparr>randint_draw = 1, choice_draw = 2\<rparr> game_1 =
     Inr (game_1\<lparr>grid := [[Some 2, None], [None, Some 4]]\<rparr>)" by code_simp
  show ?thesis
    using add_tile_empty_cell[OF h1 h2 h2 h3, of draw_0 4] h1 h2 h3 e1 e2 e3 by blast
qed

subsection \<open>The tile invariant\<close>

text \<open>
  Claim C9: on every board that \<open>perform_move\<close>, \<open>add_tile\<close> and \<open>undo\<close> produce from a
  freshly constructed board, every non-empty cell of the grid holds a power of two that
  is at least 2.
\<close>

theorem reachable_tiles_power_of_two:
  assumes "reachable b"
  shows "valid_grid (grid b)"
  using reachable_inv[OF assms] by (simp add: board_inv_def)

theorem reachable_tiles_power_of_two_witness:
  "reachable game_3 \<and> valid_grid (grid game_3)"
  using reachable_tiles_power_of_two[OF game_reachable(2)] game_reachable(2) by blast

subsection \<open>Construction\<close>

text \<open>
  Claim C10: \<open>init 0\<close> fails with the division by zero; for every size of at least one,
  \<open>init\<close> returns a board of that size whose grid has that many rows of that many empty
  cells, with score 0, undo unavailable and no previous grid.
\<close>

theorem init_size:
  "init 0 = Inl ZeroDivisionError \<and>
   (1 \<le> sz \<longrightarrow>
      (\<exists>b. init sz = Inr b \<and> board_size b = sz \<and> length (grid b) = nat sz \<and>
           list_all (\<lambda>row. length row = nat sz \<and> list_all (\<lambda>c. c = None) row) (grid b) \<and>
           score b = 0 \<and> \<not> undo_available b \<and> prev_grid b = None))"
  by (simp add: init_def list_all_iff)

theorem init_size_witness:
  "init 0 = Inl ZeroDivisionError \<and> (1::int) \<le> 3 \<and>
   (\<exists>b. init 3 = Inr b \<and> board_size b = 3 \<and> length (grid b) = nat 3 \<and>
        list_all (\<lambda>row. length row = nat 3 \<and> list_all (\<lambda>c. c = None) row) (grid b) \<and>
        score b = 0 \<and> \<not> undo_available b \<and> prev_grid b = None)"
  using init_size[of 3] by simp

end
